theory Spec2Isabelle
  imports Complex_Main "HOL-Library.AList"
begin

section \<open>The Galton board program (galton.py)\<close>

text \<open>
  The program is a script over module-level constants. The constants become a record,
  so that theorems can range over every configuration; \<open>default_config\<close> holds the
  values written in the source.

  Python integers are \<open>int\<close>. The probability \<open>P\<close> and the values returned by
  \<open>random.uniform(0,1)\<close> are floats that the program only ever compares with \<open><\<close>;
  they are modelled by the real numbers they denote. The random source is the sequence
  \<open>u\<close> of the values it will return: the call of \<open>random.uniform\<close> made after
  \<open>i\<close> earlier calls returns \<open>u i\<close>, and the number of calls made so far is the state of
  the source, passed through every function that draws.
\<close>

subsection \<open>Constants\<close>

record config =
  MODE :: string
  P :: real
  N :: int
  B :: int
  B_SIM :: int
  MOTOR_SPEED :: int
  MOTOR_OPENING_DEGREES :: int
  TOP_MOTOR_ORDER :: "string list"
  BOT_MOTOR_ORDER :: "string list"

definition default_config :: config where
  "default_config =
     \<lparr>MODE = ''sim'', P = 1 / 10, N = 10, B = 50, B_SIM = 100,
      MOTOR_SPEED = 10, MOTOR_OPENING_DEGREES = 30,
      TOP_MOTOR_ORDER = [''C'', ''E'', ''B'', ''D'', ''F''],
      BOT_MOTOR_ORDER = [''A'', ''C'', ''E'', ''B'', ''D'']\<rparr>"

subsection \<open>Python primitives\<close>

datatype py_error = KeyError | ZeroDivisionError | ValueError

text \<open>\<open>range(n)\<close>: the integers \<open>0, ..., n - 1\<close>, empty when \<open>n \<le> 0\<close>.\<close>

definition py_range :: "int \<Rightarrow> int list" where
  "py_range n = map int [0..<nat n]"

text \<open>Truthiness of an integer in \<open>and\<close>, \<open>or\<close>, \<open>not\<close> and \<open>if\<close>.\<close>

definition truthy :: "int \<Rightarrow> bool" where
  "truthy x = (x \<noteq> 0)"

type_synonym uniform_source = "nat \<Rightarrow> real"

subsection \<open>bern\<close>

text \<open>
  \<^verbatim>\<open>def bern():
    if random.uniform(0,1) < P:
        return 1
    return 0\<close>
\<close>

definition bern :: "config \<Rightarrow> uniform_source \<Rightarrow> nat \<Rightarrow> int \<times> nat" where
  "bern c u i = (if u i < P c then 1 else 0, Suc i)"

subsection \<open>run\_one\_simulation\<close>

text \<open>The initialisation loop \<open>for bin in range(N + 1): balls_in_bins[bin] = 0\<close>.\<close>

fun init_bins :: "int list \<Rightarrow> (int \<rightharpoonup> int) \<Rightarrow> (int \<rightharpoonup> int)" where
  "init_bins [] balls_in_bins = balls_in_bins"
| "init_bins (b # bs) balls_in_bins = init_bins bs (balls_in_bins(b \<mapsto> 0))"

text \<open>The inner loop \<open>for level in range(N): landing_bin += bern()\<close>.\<close>

fun levels_loop :: "config \<Rightarrow> uniform_source \<Rightarrow> int list \<Rightarrow> int \<Rightarrow> nat \<Rightarrow> int \<times> nat" where
  "levels_loop c u [] landing_bin i = (landing_bin, i)"
| "levels_loop c u (level # levels) landing_bin i =
     (case bern c u i of (r, i') \<Rightarrow> levels_loop c u levels (landing_bin + r) i')"

text \<open>
  The outer loop over the balls. \<open>balls_in_bins[landing_bin] += 1\<close> reads the entry
  first, and raises \<open>KeyError\<close> when the key is absent.
\<close>

fun balls_loop ::
  "config \<Rightarrow> uniform_source \<Rightarrow> int list \<Rightarrow> (int \<rightharpoonup> int) \<Rightarrow> nat \<Rightarrow>
     py_error + (int \<rightharpoonup> int) \<times> nat" where
  "balls_loop c u [] balls_in_bins i = Inr (balls_in_bins, i)"
| "balls_loop c u (ball # balls) balls_in_bins i =
     (case levels_loop c u (py_range (N c)) 0 i of
        (landing_bin, i') \<Rightarrow>
          (case balls_in_bins landing_bin of
             None \<Rightarrow> Inl KeyError
           | Some cnt \<Rightarrow> balls_loop c u balls (balls_in_bins(landing_bin \<mapsto> cnt + 1)) i'))"

text \<open>
  \<open>run_one_simulation\<close> returns the dictionary; the model returns it together with the
  number of draws made when it returns.
\<close>

definition run_one_simulation ::
  "config \<Rightarrow> uniform_source \<Rightarrow> nat \<Rightarrow> py_error + (int \<rightharpoonup> int) \<times> nat" where
  "run_one_simulation c u i =
     balls_loop c u (py_range (B_SIM c)) (init_bins (py_range (N c + 1)) Map.empty) i"

subsection \<open>Simulation mode\<close>

text \<open>
  The branch \<open>if (MODE == "sim")\<close> of the script. What it prints is the list of printed
  lines; a line of the report carries the position label, the bin and the three
  statistics. The mean is the quotient \<open>sum(...)/len(...)\<close>; \<open>round(mean, 1)\<close>, which only
  shortens the float for display, is not applied to it here.
\<close>

datatype out = Header int | BinLine string int real int int

text \<open>\<open>for bin in range(N + 1): balls_in_bins_trials[bin] = []\<close>\<close>

fun init_trials :: "int list \<Rightarrow> (int \<rightharpoonup> int list) \<Rightarrow> (int \<rightharpoonup> int list)" where
  "init_trials [] balls_in_bins_trials = balls_in_bins_trials"
| "init_trials (b # bs) balls_in_bins_trials = init_trials bs (balls_in_bins_trials(b \<mapsto> []))"

text \<open>\<open>for bin in range(N + 1): balls_in_bins_trials[bin].append(balls_in_bins[bin])\<close>\<close>

fun append_trial ::
  "int list \<Rightarrow> (int \<rightharpoonup> int) \<Rightarrow> (int \<rightharpoonup> int list) \<Rightarrow> py_error + (int \<rightharpoonup> int list)" where
  "append_trial [] balls_in_bins balls_in_bins_trials = Inr balls_in_bins_trials"
| "append_trial (b # bs) balls_in_bins balls_in_bins_trials =
     (case balls_in_bins_trials b of
        None \<Rightarrow> Inl KeyError
      | Some xs \<Rightarrow>
          (case balls_in_bins b of
             None \<Rightarrow> Inl KeyError
           | Some v \<Rightarrow> append_trial bs balls_in_bins (balls_in_bins_trials(b \<mapsto> xs @ [v]))))"

text \<open>\<open>for _ in range(n_sim): ...\<close>\<close>

fun trials_loop ::
  "config \<Rightarrow> uniform_source \<Rightarrow> int list \<Rightarrow> (int \<rightharpoonup> int list) \<Rightarrow> nat \<Rightarrow>
     py_error + (int \<rightharpoonup> int list) \<times> nat" where
  "trials_loop c u [] balls_in_bins_trials i = Inr (balls_in_bins_trials, i)"
| "trials_loop c u (t # ts) balls_in_bins_trials i =
     (case run_one_simulation c u i of
        Inl err \<Rightarrow> Inl err
      | Inr (balls_in_bins, i') \<Rightarrow>
          (case append_trial (py_range (N c + 1)) balls_in_bins balls_in_bins_trials of
             Inl err \<Rightarrow> Inl err
           | Inr trials' \<Rightarrow> trials_loop c u ts trials' i'))"

text \<open>
  \<open>sum(xs)/len(xs)\<close> raises \<open>ZeroDivisionError\<close> on the empty list; \<open>max([])\<close> and
  \<open>min([])\<close> raise \<open>ValueError\<close>.
\<close>

definition py_mean :: "int list \<Rightarrow> py_error + real" where
  "py_mean xs =
     (if length xs = 0 then Inl ZeroDivisionError
      else Inr (real_of_int (sum_list xs) / real (length xs)))"

definition py_max :: "int list \<Rightarrow> py_error + int" where
  "py_max xs = (case xs of [] \<Rightarrow> Inl ValueError | x # ys \<Rightarrow> Inr (fold max ys x))"

definition py_min :: "int list \<Rightarrow> py_error + int" where
  "py_min xs = (case xs of [] \<Rightarrow> Inl ValueError | x # ys \<Rightarrow> Inr (fold min ys x))"

text \<open>
  The reporting loop. It returns what has been printed and the exception that ended
  it, if any.
\<close>

fun report_loop ::
  "config \<Rightarrow> int list \<Rightarrow> (int \<rightharpoonup> int list) \<Rightarrow> out list \<Rightarrow> out list \<times> py_error option" where
  "report_loop c [] balls_in_bins_trials printed = (printed, None)"
| "report_loop c (b # bs) balls_in_bins_trials printed =
     (case balls_in_bins_trials b of
        None \<Rightarrow> (printed, Some KeyError)
      | Some xs \<Rightarrow>
          (case py_mean xs of
             Inl err \<Rightarrow> (printed, Some err)
           | Inr mean \<Rightarrow>
               (case py_max xs of
                  Inl err \<Rightarrow> (printed, Some err)
                | Inr maxval \<Rightarrow>
                    (case py_min xs of
                       Inl err \<Rightarrow> (printed, Some err)
                     | Inr minval \<Rightarrow>
                         (let pos = (if b = 0 then ''     Left ''
                                     else if b = N c then ''   Right ''
                                     else ''            '')
                          in report_loop c bs balls_in_bins_trials
                               (printed @ [BinLine pos b mean maxval minval]))))))"

definition simulation_mode ::
  "config \<Rightarrow> uniform_source \<Rightarrow> int \<Rightarrow> out list \<times> py_error option" where
  "simulation_mode c u n_sim =
     (case trials_loop c u (py_range n_sim) (init_trials (py_range (N c + 1)) Map.empty) 0 of
        Inl err \<Rightarrow> ([], Some err)
      | Inr (balls_in_bins_trials, i) \<Rightarrow>
          report_loop c (py_range (N c + 1)) balls_in_bins_trials [Header n_sim])"

subsection \<open>Physical mode\<close>

text \<open>
  The \<open>else\<close> branch of the script drives the hub. Every call that reaches the hub or
  a motor is recorded, in order, in a trace. The hub and the world around it are the
  environment: the random source, what a motor reports as its position when it is asked
  after a given number of earlier events, and whether the left button is ever pressed.
  \<open>wait_until_pressed\<close> returns when the button is pressed (the event
  \<open>LeftButtonPressed\<close>) and never returns otherwise.
\<close>

datatype event =
    ShowImage string
  | GetPosition string int
  | PrintPositions "(string \<times> int) list"
  | RunForRotations string int
  | WaitUntilPressed
  | LeftButtonPressed
  | RunToPosition string int string int
  | WaitForSeconds int

record env =
  uniform :: uniform_source
  get_position :: "nat \<Rightarrow> string \<Rightarrow> int"
  button_pressed :: bool

text \<open>
  The variables of the script that change while it runs. The dictionary
  \<open>initial_positions\<close> is an association list in insertion order, as \<open>print\<close> shows
  it; \<open>draws\<close> is the number of calls of \<open>random.uniform\<close> made so far.
\<close>

record hub_state =
  draws :: nat
  initial_positions :: "(string \<times> int) list"
  trace :: "event list"

datatype outcome = Finished | Blocked | Raised py_error

definition motor_order_of :: "config \<Rightarrow> string list" where
  "motor_order_of c = (if MODE c = ''top'' then TOP_MOTOR_ORDER c else BOT_MOTOR_ORDER c)"

definition parity_start_of :: "config \<Rightarrow> int" where
  "parity_start_of c = (if MODE c = ''top'' then 1 else 0)"

text \<open>
  \<^verbatim>\<open>for motor_id in motor_order:
    motor = Motor(motor_id)
    initial_positions[motor_id] = motor.get_position()\<close>
\<close>

fun capture_positions :: "env \<Rightarrow> string list \<Rightarrow> hub_state \<Rightarrow> hub_state" where
  "capture_positions e [] s = s"
| "capture_positions e (motor_id # rest) s =
     (let v = get_position e (length (trace s)) motor_id
      in capture_positions e rest
           (s\<lparr>initial_positions := AList.update motor_id v (initial_positions s),
              trace := trace s @ [GetPosition motor_id v]\<rparr>))"

text \<open>
  The first \<open>for\<close> loop of a cycle, which draws and moves each motor.
  \<open>initial_positions[motor_id]\<close> raises \<open>KeyError\<close> when the key is absent. The loop
  returns the state it reached and the exception that ended it, if any.
\<close>

fun move_loop ::
  "config \<Rightarrow> uniform_source \<Rightarrow> int \<Rightarrow> string list \<Rightarrow> int \<Rightarrow> hub_state \<Rightarrow>
     hub_state \<times> py_error option" where
  "move_loop c u parity_start [] row_count s = (s, None)"
| "move_loop c u parity_start (motor_id # rest) row_count s =
     (case bern c u (draws s) of
        (right, i') \<Rightarrow>
          (let s1 = s\<lparr>draws := i'\<rparr>;
               row_count' = row_count + 1;
               parity = (parity_start + row_count') mod 2
           in case map_of (initial_positions s1) motor_id of
                None \<Rightarrow> (s1, Some KeyError)
              | Some ip \<Rightarrow>
                  (let motor_pos =
                         (if (truthy right \<and> \<not> truthy parity) \<or> (\<not> truthy right \<and> truthy parity)
                          then (ip + MOTOR_OPENING_DEGREES c) mod 360
                          else (ip - MOTOR_OPENING_DEGREES c) mod 360)
                   in move_loop c u parity_start rest row_count'
                        (s1\<lparr>trace := trace s1 @
                            [RunToPosition motor_id motor_pos ''shortest path'' (MOTOR_SPEED c)]\<rparr>))))"

text \<open>The second \<open>for\<close> loop of a cycle, which sends each motor back.\<close>

fun reset_loop :: "config \<Rightarrow> string list \<Rightarrow> hub_state \<Rightarrow> hub_state \<times> py_error option" where
  "reset_loop c [] s = (s, None)"
| "reset_loop c (motor_id # rest) s =
     (case map_of (initial_positions s) motor_id of
        None \<Rightarrow> (s, Some KeyError)
      | Some ip \<Rightarrow>
          reset_loop c rest
            (s\<lparr>trace := trace s @
                [RunToPosition motor_id ip ''shortest path'' (MOTOR_SPEED c)]\<rparr>))"

text \<open>
  \<^verbatim>\<open>while ball_count < B:
    ball_count += 1
    ...\<close>
\<close>

function cycles ::
  "config \<Rightarrow> uniform_source \<Rightarrow> int \<Rightarrow> string list \<Rightarrow> int \<Rightarrow> hub_state \<Rightarrow>
     hub_state \<times> py_error option" where
  "cycles c u parity_start motor_order ball_count s =
     (if ball_count < B c then
        (case move_loop c u parity_start motor_order 0 s of
           (s1, Some err) \<Rightarrow> (s1, Some err)
         | (s1, None) \<Rightarrow>
             (case reset_loop c motor_order (s1\<lparr>trace := trace s1 @ [WaitForSeconds 5]\<rparr>) of
                (s2, Some err) \<Rightarrow> (s2, Some err)
              | (s2, None) \<Rightarrow> cycles c u parity_start motor_order (ball_count + 1) s2))
      else (s, None))"
  by pat_completeness auto
termination
  by (relation "measure (\<lambda>(c, u, parity_start, motor_order, ball_count, s). nat (B c - ball_count))")
    auto

declare cycles.simps [simp del]

definition physical_mode :: "config \<Rightarrow> env \<Rightarrow> hub_state \<times> outcome" where
  "physical_mode c e =
     (let s0 = \<lparr>draws = 0, initial_positions = [], trace = [ShowImage ''HEART'']\<rparr>;
          motor_order = motor_order_of c;
          parity_start = parity_start_of c;
          s1 = capture_positions e motor_order s0;
          s2 = s1\<lparr>trace := trace s1 @ [PrintPositions (initial_positions s1)]\<rparr>;
          run = (\<lambda>s. case cycles c (uniform e) parity_start motor_order 0 s of
                        (s', None) \<Rightarrow> (s', Finished)
                      | (s', Some err) \<Rightarrow> (s', Raised err))
      in if MODE c = ''top'' then run (s2\<lparr>trace := trace s2 @ [RunForRotations ''A'' 1]\<rparr>)
         else
           (let s3 = s2\<lparr>trace := trace s2 @ [WaitUntilPressed]\<rparr>
            in if button_pressed e then run (s3\<lparr>trace := trace s3 @ [LeftButtonPressed]\<rparr>)
               else (s3, Blocked)))"

subsection \<open>The script\<close>

datatype run = Simulation "out list \<times> py_error option" | Physical "hub_state \<times> outcome"

definition galton :: "config \<Rightarrow> env \<Rightarrow> run" where
  "galton c e =
     (if MODE c = ''sim'' then Simulation (simulation_mode c (uniform e) 10)
      else Physical (physical_mode c e))"

section \<open>Auxiliary notions for the proofs\<close>

text \<open>
  The invariant of the loop over the balls: the keys of the dictionary are the bins
  \<open>0, ..., n\<close> and no count is negative.
\<close>

definition bins_ok :: "int \<Rightarrow> (int \<rightharpoonup> int) \<Rightarrow> bool" where
  "bins_ok n d \<longleftrightarrow> dom d = {0..n} \<and> (\<forall>k v. d k = Some v \<longrightarrow> 0 \<le> v)"

text \<open>The label that the report prints in front of bin \<open>b\<close>.\<close>

definition pos_label :: "config \<Rightarrow> int \<Rightarrow> string" where
  "pos_label c b =
     (if b = 0 then ''     Left '' else if b = N c then ''   Right '' else ''            '')"

text \<open>Which events are commands to an actuator, and which are position readings.\<close>

fun is_actuator_command :: "event \<Rightarrow> bool" where
  "is_actuator_command (RunToPosition m t d sp) = True"
| "is_actuator_command _ = False"

fun is_get_position :: "event \<Rightarrow> bool" where
  "is_get_position (GetPosition m v) = True"
| "is_get_position _ = False"

text \<open>
  Closed forms of what the loops of the physical mode emit: what the motors report
  during the capture loop that starts after \<open>t\<close> events; the commands of the first
  loop of a cycle that starts after \<open>i\<close> draws, for recorded positions \<open>rec\<close>; the
  commands of the second loop; the events of one cycle and of \<open>n\<close> cycles; the
  dictionary that the capture loop leaves; the events before and at the
  synchronisation.
\<close>

fun readings :: "env \<Rightarrow> nat \<Rightarrow> string list \<Rightarrow> int list" where
  "readings e t [] = []"
| "readings e t (m # ms) = get_position e t m # readings e (Suc t) ms"

fun moves ::
  "config \<Rightarrow> uniform_source \<Rightarrow> int \<Rightarrow> (string \<rightharpoonup> int) \<Rightarrow> string list \<Rightarrow> int \<Rightarrow> nat \<Rightarrow> event list" where
  "moves c u ps rec [] rc i = []"
| "moves c u ps rec (m # ms) rc i =
     RunToPosition m
       (if (u i < P c \<and> (ps + (rc + 1)) mod 2 = 0) \<or> (\<not> u i < P c \<and> (ps + (rc + 1)) mod 2 = 1)
        then (the (rec m) + MOTOR_OPENING_DEGREES c) mod 360
        else (the (rec m) - MOTOR_OPENING_DEGREES c) mod 360)
       ''shortest path'' (MOTOR_SPEED c)
     # moves c u ps rec ms (rc + 1) (Suc i)"

definition resets :: "config \<Rightarrow> (string \<rightharpoonup> int) \<Rightarrow> string list \<Rightarrow> event list" where
  "resets c rec ms = map (\<lambda>m. RunToPosition m (the (rec m)) ''shortest path'' (MOTOR_SPEED c)) ms"

definition cycle_events ::
  "config \<Rightarrow> uniform_source \<Rightarrow> int \<Rightarrow> (string \<rightharpoonup> int) \<Rightarrow> string list \<Rightarrow> nat \<Rightarrow> event list" where
  "cycle_events c u ps rec ms i = moves c u ps rec ms 0 i @ [WaitForSeconds 5] @ resets c rec ms"

definition run_events ::
  "config \<Rightarrow> uniform_source \<Rightarrow> int \<Rightarrow> (string \<rightharpoonup> int) \<Rightarrow> string list \<Rightarrow> nat \<Rightarrow> nat \<Rightarrow> event list list" where
  "run_events c u ps rec ms i n =
     map (\<lambda>k. cycle_events c u ps rec ms (i + k * length ms)) [0..<n]"

definition recorded :: "config \<Rightarrow> env \<Rightarrow> (string \<times> int) list" where
  "recorded c e =
     initial_positions
       (capture_positions e (motor_order_of c)
          \<lparr>draws = 0, initial_positions = [], trace = [ShowImage ''HEART'']\<rparr>)"

definition startup :: "config \<Rightarrow> env \<Rightarrow> event list" where
  "startup c e =
     ShowImage ''HEART'' #
     map2 GetPosition (motor_order_of c) (readings e 1 (motor_order_of c)) @
     [PrintPositions (recorded c e)]"

definition sync_events :: "config \<Rightarrow> event list" where
  "sync_events c =
     (if MODE c = ''top'' then [RunForRotations ''A'' 1]
      else [WaitUntilPressed, LeftButtonPressed])"

text \<open>Inputs for the examples: a constant random source and a hub whose motors all report 100.\<close>

definition always :: "real \<Rightarrow> uniform_source" where
  "always x = (\<lambda>k. x)"

definition example_env :: env where
  "example_env = \<lparr>uniform = always (1 / 2), get_position = (\<lambda>t m. 100), button_pressed = True\<rparr>"

section \<open>One simulation trial\<close>

lemma length_py_range: "length (py_range n) = nat n"
  by (simp add: py_range_def)

lemma set_py_range: "set (py_range n) = {0..<n}"
proof (rule set_eqI)
  fix x :: int
  show "x \<in> set (py_range n) \<longleftrightarrow> x \<in> {0..<n}"
  proof
    assume "x \<in> set (py_range n)"
    then show "x \<in> {0..<n}" by (auto simp: py_range_def)
  next
    assume "x \<in> {0..<n}"
    then have "nat x \<in> {0..<nat n}" and "x = int (nat x)" by auto
    then show "x \<in> set (py_range n)"
      unfolding py_range_def set_map set_upt by (rule image_eqI[rotated])
  qed
qed

lemma init_bins_app:
  "init_bins bs d k = (if k \<in> set bs then Some 0 else d k)"
  by (induction bs arbitrary: d) auto

lemma init_bins_range:
  "init_bins (py_range (n + 1)) Map.empty = (\<lambda>k. if 0 \<le> k \<and> k \<le> n then Some 0 else None)"
  by (rule ext) (simp add: init_bins_app set_py_range)

lemma levels_loop_bounds:
  "levels_loop c u ls lb i = (lb', i') \<Longrightarrow> lb \<le> lb' \<and> lb' \<le> lb + int (length ls)"
proof (induction ls arbitrary: lb i)
  case Nil
  then show ?case by simp
next
  case (Cons l ls)
  from Cons.prems
  have "levels_loop c u ls (lb + fst (bern c u i)) (snd (bern c u i)) = (lb', i')"
    by (simp add: case_prod_beta)
  from Cons.IH[OF this] show ?case by (simp add: bern_def split: if_splits)
qed

lemma sum_the_upd:
  assumes "0 \<le> lb" "lb \<le> (n::int)"
  shows "(\<Sum>k = 0..n. the ((d(lb \<mapsto> v)) k)) = (\<Sum>k = 0..n. the (d k)) - the (d lb) + (v::int)"
proof -
  have mem: "lb \<in> {0..n}" using assms by simp
  have rest: "(\<Sum>k\<in>{0..n} - {lb}. the ((d(lb \<mapsto> v)) k)) = (\<Sum>k\<in>{0..n} - {lb}. the (d k))"
    by (rule sum.cong) auto
  have "(\<Sum>k = 0..n. the ((d(lb \<mapsto> v)) k)) = v + (\<Sum>k\<in>{0..n} - {lb}. the ((d(lb \<mapsto> v)) k))"
    using sum.remove[OF finite_atLeastAtMost_int mem, of "\<lambda>k. the ((d(lb \<mapsto> v)) k)"] by simp
  moreover have "(\<Sum>k = 0..n. the (d k)) = the (d lb) + (\<Sum>k\<in>{0..n} - {lb}. the (d k))"
    using sum.remove[OF finite_atLeastAtMost_int mem, of "\<lambda>k. the (d k)"] by simp
  ultimately show ?thesis using rest by simp
qed

lemma balls_loop_counts:
  assumes "0 \<le> N c" "bins_ok (N c) d"
  shows "\<exists>d' i'. balls_loop c u balls d i = Inr (d', i') \<and> bins_ok (N c) d' \<and>
           (\<Sum>k = 0..N c. the (d' k)) = (\<Sum>k = 0..N c. the (d k)) + int (length balls)"
  using assms(2)
proof (induction balls arbitrary: d i)
  case Nil
  then show ?case by simp
next
  case (Cons ball balls)
  obtain lb i1 where ll: "levels_loop c u (py_range (N c)) 0 i = (lb, i1)"
    by (cases "levels_loop c u (py_range (N c)) 0 i")
  from levels_loop_bounds[OF ll] assms(1) have lb: "0 \<le> lb" "lb \<le> N c"
    by (simp_all add: length_py_range)
  with Cons.prems obtain cnt where cnt: "d lb = Some cnt" "0 \<le> cnt"
    unfolding bins_ok_def by (metis atLeastAtMost_iff domD)
  let ?d1 = "d(lb \<mapsto> cnt + 1)"
  have ok1: "bins_ok (N c) ?d1"
    using Cons.prems lb cnt unfolding bins_ok_def by auto
  have sum1: "(\<Sum>k = 0..N c. the (?d1 k)) = (\<Sum>k = 0..N c. the (d k)) + 1"
    using sum_the_upd[OF lb, of d "cnt + 1"] cnt by simp
  from Cons.IH[OF ok1, of i1] obtain d' i' where
    "balls_loop c u balls ?d1 i1 = Inr (d', i')" "bins_ok (N c) d'"
    "(\<Sum>k = 0..N c. the (d' k)) = (\<Sum>k = 0..N c. the (?d1 k)) + int (length balls)"
    by blast
  then show ?case using ll cnt sum1 by simp
qed

lemma bins_ok_init: "bins_ok n (init_bins (py_range (n + 1)) Map.empty)"
  by (auto simp: bins_ok_def init_bins_range dom_def)

text \<open>
  Claim C1. For every number of levels \<open>N \<ge> 0\<close>, every ball count \<open>B_SIM > 0\<close>, every
  probability and every random source, one simulation trial returns (it raises nothing),
  the keys of the returned dictionary are exactly the bins \<open>0, ..., N\<close>, every count is
  non-negative, and the counts add up to \<open>B_SIM\<close>: each ball is counted in exactly one
  bin.
\<close>

theorem run_one_simulation_counts:
  assumes "0 \<le> N c" "0 < B_SIM c"
  shows "\<exists>d i'. run_one_simulation c u i = Inr (d, i') \<and> dom d = {0..N c} \<and>
           (\<forall>k\<in>{0..N c}. \<exists>v. d k = Some v \<and> 0 \<le> v) \<and> (\<Sum>k = 0..N c. the (d k)) = B_SIM c"
proof -
  let ?d0 = "init_bins (py_range (N c + 1)) Map.empty"
  have zero: "(\<Sum>k = 0..N c. the (?d0 k)) = 0"
    by (simp add: init_bins_range)
  from balls_loop_counts[OF assms(1) bins_ok_init, of u "py_range (B_SIM c)" i]
  obtain d i' where r: "balls_loop c u (py_range (B_SIM c)) ?d0 i = Inr (d, i')"
    and ok: "bins_ok (N c) d"
    and s: "(\<Sum>k = 0..N c. the (d k)) = (\<Sum>k = 0..N c. the (?d0 k)) + int (length (py_range (B_SIM c)))"
    by blast
  have "(\<Sum>k = 0..N c. the (d k)) = B_SIM c"
    using s zero assms(2) by (simp add: length_py_range)
  moreover have "\<forall>k\<in>{0..N c}. \<exists>v. d k = Some v \<and> 0 \<le> v"
    using ok unfolding bins_ok_def by (metis domD)
  ultimately show ?thesis using r ok unfolding bins_ok_def run_one_simulation_def by blast
qed

theorem run_one_simulation_counts_witness:
  "0 \<le> N default_config \<and> 0 < B_SIM default_config \<and>
   (\<exists>d i'. run_one_simulation default_config (\<lambda>k. 1 / 2) 0 = Inr (d, i') \<and>
      dom d = {0..10} \<and> (\<Sum>k = 0..10. the (d k)) = 100)"
proof -
  have h: "0 \<le> N default_config" "0 < B_SIM default_config"
    by (simp_all add: default_config_def)
  have "N default_config = 10" "B_SIM default_config = 100"
    by (simp_all add: default_config_def)
  with run_one_simulation_counts[OF h, of "\<lambda>k. 1 / 2" 0] h show ?thesis
    by fastforce
qed

lemma levels_loop_draws: "snd (levels_loop c u ls lb i) = i + length ls"
  by (induction ls arbitrary: lb i) (simp_all add: bern_def)

lemma levels_loop_none_right:
  "\<forall>k. \<not> u k < P c \<Longrightarrow> fst (levels_loop c u ls lb i) = lb"
  by (induction ls arbitrary: lb i) (simp_all add: bern_def)

lemma levels_loop_all_right:
  "\<forall>k. u k < P c \<Longrightarrow> fst (levels_loop c u ls lb i) = lb + int (length ls)"
  by (induction ls arbitrary: lb i) (simp_all add: bern_def)

lemma balls_loop_Some:
  "levels_loop c u (py_range (N c)) 0 i = (b, i1) \<Longrightarrow> d b = Some v \<Longrightarrow>
   balls_loop c u (ball # balls) d i = balls_loop c u balls (d(b \<mapsto> v + 1)) i1"
  by simp

lemma balls_loop_None:
  "levels_loop c u (py_range (N c)) 0 i = (b, i1) \<Longrightarrow> d b = None \<Longrightarrow>
   balls_loop c u (ball # balls) d i = Inl KeyError"
  by simp

lemma balls_loop_same_bin:
  assumes "\<forall>i. fst (levels_loop c u (py_range (N c)) 0 i) = b"
  shows "d b = Some v \<Longrightarrow>
         \<exists>i'. balls_loop c u balls d i = Inr (d(b \<mapsto> v + int (length balls)), i')"
proof (induction balls arbitrary: d v i)
  case Nil
  then show ?case by (simp add: map_upd_triv)
next
  case (Cons ball balls)
  obtain i1 where ll: "levels_loop c u (py_range (N c)) 0 i = (b, i1)"
    using assms by (metis prod.collapse)
  have "\<exists>i'. balls_loop c u balls (d(b \<mapsto> v + 1)) i1 =
          Inr ((d(b \<mapsto> v + 1))(b \<mapsto> v + 1 + int (length balls)), i')"
    by (rule Cons.IH) simp
  moreover have "v + 1 + int (length balls) = v + int (length (ball # balls))"
    by simp
  ultimately show ?case
    unfolding balls_loop_Some[where d=d, OF ll Cons.prems] by (simp only: fun_upd_upd)
qed

lemma run_one_simulation_same_bin:
  assumes lv: "\<forall>i. fst (levels_loop c u (py_range (N c)) 0 i) = b"
    and b: "0 \<le> b" "b \<le> N c" and B: "0 \<le> B_SIM c"
  shows "\<exists>i'. run_one_simulation c u i =
           Inr ((\<lambda>k. if 0 \<le> k \<and> k \<le> N c then Some 0 else None)(b \<mapsto> B_SIM c), i')"
proof -
  let ?d0 = "\<lambda>k. if 0 \<le> k \<and> k \<le> N c then Some (0::int) else None"
  have "\<exists>i'. balls_loop c u (py_range (B_SIM c)) ?d0 i =
          Inr (?d0(b \<mapsto> 0 + int (length (py_range (B_SIM c)))), i')"
    using b by (intro balls_loop_same_bin[OF lv]) simp
  then show ?thesis
    using B by (simp add: run_one_simulation_def init_bins_range length_py_range)
qed

text \<open>
  Claim C2. The degenerate cases of a trial are exact. With \<open>P = 0\<close> and a source whose
  values are never negative, every ball lands in bin \<open>0\<close>: the result is \<open>{0: B_SIM}\<close>
  and zero for the other bins. With \<open>P = 1\<close> and a source drawing from \<open>[0, 1)\<close>, every
  ball lands in bin \<open>N\<close>. With \<open>N = 0\<close> the result is \<open>{0: B_SIM}\<close> whatever
  \<open>P\<close> and the source are.
\<close>

theorem degenerate_trials:
  "(P c0 = 0 \<and> (\<forall>k. 0 \<le> u0 k) \<and> 0 \<le> N c0 \<and> 0 \<le> B_SIM c0 \<longrightarrow>
      (\<exists>i'. run_one_simulation c0 u0 i0 =
         Inr ((\<lambda>k. if 0 \<le> k \<and> k \<le> N c0 then Some 0 else None)(0 \<mapsto> B_SIM c0), i'))) \<and>
   (P c1 = 1 \<and> (\<forall>k. 0 \<le> u1 k \<and> u1 k < 1) \<and> 0 \<le> N c1 \<and> 0 \<le> B_SIM c1 \<longrightarrow>
      (\<exists>i'. run_one_simulation c1 u1 i1 =
         Inr ((\<lambda>k. if 0 \<le> k \<and> k \<le> N c1 then Some 0 else None)(N c1 \<mapsto> B_SIM c1), i'))) \<and>
   (N c2 = 0 \<and> 0 \<le> B_SIM c2 \<longrightarrow>
      (\<exists>i'. run_one_simulation c2 u2 i2 = Inr ([0 \<mapsto> B_SIM c2], i')))"
proof (intro conjI impI)
  assume h: "P c0 = 0 \<and> (\<forall>k. 0 \<le> u0 k) \<and> 0 \<le> N c0 \<and> 0 \<le> B_SIM c0"
  then have "\<forall>k. \<not> u0 k < P c0" by (simp add: not_less)
  then have "\<forall>i. fst (levels_loop c0 u0 (py_range (N c0)) 0 i) = 0"
    by (simp add: levels_loop_none_right)
  from run_one_simulation_same_bin[OF this, of i0] h
  show "\<exists>i'. run_one_simulation c0 u0 i0 =
         Inr ((\<lambda>k. if 0 \<le> k \<and> k \<le> N c0 then Some 0 else None)(0 \<mapsto> B_SIM c0), i')"
    by simp
next
  assume h: "P c1 = 1 \<and> (\<forall>k. 0 \<le> u1 k \<and> u1 k < 1) \<and> 0 \<le> N c1 \<and> 0 \<le> B_SIM c1"
  then have "\<forall>k. u1 k < P c1" by simp
  then have "\<forall>i. fst (levels_loop c1 u1 (py_range (N c1)) 0 i) = N c1"
    using h by (simp add: levels_loop_all_right length_py_range)
  from run_one_simulation_same_bin[OF this, of i1] h
  show "\<exists>i'. run_one_simulation c1 u1 i1 =
         Inr ((\<lambda>k. if 0 \<le> k \<and> k \<le> N c1 then Some 0 else None)(N c1 \<mapsto> B_SIM c1), i')"
    by simp
next
  assume h: "N c2 = 0 \<and> 0 \<le> B_SIM c2"
  then have "\<forall>i. fst (levels_loop c2 u2 (py_range (N c2)) 0 i) = 0"
    by (simp add: py_range_def)
  from run_one_simulation_same_bin[OF this, of i2] h
  obtain i' where r: "run_one_simulation c2 u2 i2 =
      Inr ((\<lambda>k. if 0 \<le> k \<and> k \<le> N c2 then Some 0 else None)(0 \<mapsto> B_SIM c2), i')"
    by auto
  have "(\<lambda>k. if 0 \<le> k \<and> k \<le> N c2 then Some 0 else None)(0 \<mapsto> B_SIM c2) = [0 \<mapsto> B_SIM c2]"
    using h by (auto simp: fun_eq_iff)
  with r show "\<exists>i'. run_one_simulation c2 u2 i2 = Inr ([0 \<mapsto> B_SIM c2], i')" by simp
qed

theorem degenerate_trials_witness:
  "(\<exists>i'. run_one_simulation (default_config\<lparr>P := 0\<rparr>) (\<lambda>k. 1 / 2) 0 =
      Inr ((\<lambda>k. if 0 \<le> k \<and> k \<le> 10 then Some 0 else None)(0 \<mapsto> 100), i')) \<and>
   (\<exists>i'. run_one_simulation (default_config\<lparr>P := 1\<rparr>) (\<lambda>k. 1 / 2) 0 =
      Inr ((\<lambda>k. if 0 \<le> k \<and> k \<le> 10 then Some 0 else None)(10 \<mapsto> 100), i')) \<and>
   (\<exists>i'. run_one_simulation (default_config\<lparr>N := 0\<rparr>) (\<lambda>k. 1 / 2) 0 = Inr ([0 \<mapsto> 100], i'))"
  using degenerate_trials[of "default_config\<lparr>P := 0\<rparr>" "\<lambda>k. 1 / 2" 0
      "default_config\<lparr>P := 1\<rparr>" "\<lambda>k. 1 / 2" 0 "default_config\<lparr>N := 0\<rparr>" "\<lambda>k. 1 / 2" 0]
  by (simp add: default_config_def)

lemma levels_loop_same_draws:
  "\<forall>k<length ls. u (i + k) = u' (j + k) \<Longrightarrow>
   fst (levels_loop c u ls lb i) = fst (levels_loop c u' ls lb j)"
proof (induction ls arbitrary: lb i j)
  case Nil
  then show ?case by simp
next
  case (Cons l ls)
  from Cons.prems have hd: "u i = u' j"
    by (metis add.right_neutral length_greater_0_conv list.discI)
  from Cons.prems have "\<forall>k<length ls. u (Suc i + k) = u' (Suc j + k)"
    by (metis Suc_less_eq add_Suc_shift length_Cons)
  from Cons.IH[OF this] show ?case using hd by (simp add: bern_def)
qed

lemma balls_loop_same_draws:
  "\<forall>k<nat (N c) * length balls. u (i + k) = u' (j + k) \<Longrightarrow>
   map_sum id fst (balls_loop c u balls d i) = map_sum id fst (balls_loop c u' balls d j)"
proof (induction balls arbitrary: d i j)
  case Nil
  then show ?case by simp
next
  case (Cons ball balls)
  let ?n = "nat (N c)"
  let ?ls = "py_range (N c)"
  have len: "length ?ls = ?n" by (simp add: length_py_range)
  have first: "\<forall>k<length ?ls. u (i + k) = u' (j + k)"
    using Cons.prems by (simp add: len)
  have rest: "\<forall>k<?n * length balls. u (i + ?n + k) = u' (j + ?n + k)"
  proof (intro allI impI)
    fix k assume "k < ?n * length balls"
    then have "?n + k < ?n * length (ball # balls)" by simp
    with Cons.prems have "u (i + (?n + k)) = u' (j + (?n + k))" by blast
    then show "u (i + ?n + k) = u' (j + ?n + k)" by (simp add: add.assoc)
  qed
  obtain lb i1 where l1: "levels_loop c u ?ls 0 i = (lb, i1)"
    by (cases "levels_loop c u ?ls 0 i")
  obtain lb' j1 where l2: "levels_loop c u' ?ls 0 j = (lb', j1)"
    by (cases "levels_loop c u' ?ls 0 j")
  have "lb = lb'" using levels_loop_same_draws[OF first, of c 0] l1 l2 by simp
  moreover have "i1 = i + ?n" using levels_loop_draws[of c u ?ls 0 i] l1 len by simp
  moreover have "j1 = j + ?n" using levels_loop_draws[of c u' ?ls 0 j] l2 len by simp
  ultimately have l1': "levels_loop c u ?ls 0 i = (lb, i + ?n)"
    and l2': "levels_loop c u' ?ls 0 j = (lb, j + ?n)"
    using l1 l2 by simp_all
  show ?case
  proof (cases "d lb")
    case None
    then show ?thesis
      unfolding balls_loop_None[where d=d, OF l1' None] balls_loop_None[where d=d, OF l2' None] by simp
  next
    case (Some v)
    show ?thesis
      unfolding balls_loop_Some[where d=d, OF l1' Some] balls_loop_Some[where d=d, OF l2' Some]
      by (rule Cons.IH[OF rest])
  qed
qed

text \<open>
  Claim C10. A trial is a function of the values its random source yields: two runs
  with the same constants whose sources yield the same \<open>N * B_SIM\<close> values from where
  each run starts return the same dictionary (or raise the same exception), whatever
  the sources yield afterwards.
\<close>

theorem run_one_simulation_deterministic:
  assumes "\<forall>k<nat (N c) * nat (B_SIM c). u (i + k) = u' (j + k)"
  shows "map_sum id fst (run_one_simulation c u i) = map_sum id fst (run_one_simulation c u' j)"
  unfolding run_one_simulation_def
  using assms by (intro balls_loop_same_draws) (simp add: length_py_range)

theorem run_one_simulation_deterministic_witness:
  "map_sum id fst (run_one_simulation (default_config\<lparr>N := 1, B_SIM := 2\<rparr>)
      (\<lambda>k. if k < 2 then 1 / 20 else 3 / 10) 0) =
   map_sum id fst (run_one_simulation (default_config\<lparr>N := 1, B_SIM := 2\<rparr>)
      (\<lambda>k. if k < 5 then 1 / 20 else 9 / 10) 3)"
  using run_one_simulation_deterministic[of "default_config\<lparr>N := 1, B_SIM := 2\<rparr>"
      "\<lambda>k. if k < 2 then 1 / 20 else 3 / 10" 0 "\<lambda>k. if k < 5 then 1 / 20 else 9 / 10" 3]
  by (simp add: default_config_def)

section \<open>Simulation mode\<close>

lemma distinct_py_range: "distinct (py_range n)"
  by (simp add: py_range_def distinct_map)

lemma py_range_Cons: "0 < n \<Longrightarrow> py_range n = 0 # map (\<lambda>k. k + 1) (py_range (n - 1))"
proof -
  assume "0 < n"
  then obtain m where m: "nat n = Suc m" by (metis Suc_pred' zero_less_nat_eq)
  then have m': "nat (n - 1) = m" by simp
  have "[0..<Suc m] = 0 # map Suc [0..<m]" by (simp add: upt_conv_Cons map_Suc_upt del: upt_Suc)
  then show ?thesis by (simp add: py_range_def m m' o_def del: upt_Suc)
qed

lemma init_trials_app:
  "init_trials bs d k = (if k \<in> set bs then Some [] else d k)"
  by (induction bs arbitrary: d) auto

lemma init_trials_range:
  "init_trials (py_range (n + 1)) Map.empty = (\<lambda>k. if 0 \<le> k \<and> k \<le> n then Some [] else None)"
  by (rule ext) (simp add: init_trials_app set_py_range)

lemma append_trial_Some:
  "tr b = Some xs \<Longrightarrow> bib b = Some v \<Longrightarrow>
   append_trial (b # bs) bib tr = append_trial bs bib (tr(b \<mapsto> xs @ [v]))"
  by simp

lemma append_trial_all:
  assumes "distinct bs" "\<forall>b\<in>set bs. \<exists>xs. tr b = Some xs" "\<forall>b\<in>set bs. \<exists>v. bib b = Some v"
  shows "append_trial bs bib tr =
           Inr (\<lambda>k. if k \<in> set bs then Some (the (tr k) @ [the (bib k)]) else tr k)"
  using assms
proof (induction bs arbitrary: tr)
  case Nil
  then show ?case by simp
next
  case (Cons b bs)
  from Cons.prems obtain xs v where b: "tr b = Some xs" "bib b = Some v" by auto
  let ?tr = "tr(b \<mapsto> xs @ [v])"
  from Cons.prems have nb: "b \<notin> set bs" and d: "distinct bs" by simp_all
  have 1: "\<forall>b\<in>set bs. \<exists>xs. ?tr b = Some xs" using Cons.prems(2) by simp
  have 2: "\<forall>b\<in>set bs. \<exists>v. bib b = Some v" using Cons.prems(3) by simp
  have eq: "(\<lambda>k. if k \<in> set bs then Some (the (?tr k) @ [the (bib k)]) else ?tr k) =
        (\<lambda>k. if k \<in> set (b # bs) then Some (the (tr k) @ [the (bib k)]) else tr k)"
    using nb b by (auto simp: fun_eq_iff)
  show ?case
    unfolding append_trial_Some[where tr=tr and bib=bib, OF b] Cons.IH[OF d 1 2] eq ..
qed

lemma balls_loop_draws:
  "balls_loop c u balls d i = Inr (d', i') \<Longrightarrow> i' = i + nat (N c) * length balls"
proof (induction balls arbitrary: d i)
  case Nil
  then show ?case by simp
next
  case (Cons ball balls)
  obtain lb i1 where ll: "levels_loop c u (py_range (N c)) 0 i = (lb, i1)"
    by (cases "levels_loop c u (py_range (N c)) 0 i")
  have i1: "i1 = i + nat (N c)"
    using levels_loop_draws[of c u "py_range (N c)" 0 i] ll by (simp add: length_py_range)
  show ?case
  proof (cases "d lb")
    case None
    with Cons.prems show ?thesis
      unfolding balls_loop_None[where d=d, OF ll None] by simp
  next
    case (Some v)
    from Cons.prems have "balls_loop c u balls (d(lb \<mapsto> v + 1)) i1 = Inr (d', i')"
      unfolding balls_loop_Some[where d=d, OF ll Some] .
    from Cons.IH[OF this] i1 show ?thesis by simp
  qed
qed

lemma run_one_simulation_returns:
  assumes "0 \<le> N c"
  shows "\<exists>d. run_one_simulation c u i = Inr (d, i + nat (N c) * nat (B_SIM c)) \<and>
             dom d = {0..N c}"
proof -
  from balls_loop_counts[OF assms bins_ok_init, of u "py_range (B_SIM c)" i]
  obtain d i' where r: "run_one_simulation c u i = Inr (d, i')" and ok: "bins_ok (N c) d"
    unfolding run_one_simulation_def by blast
  from r have "i' = i + nat (N c) * nat (B_SIM c)"
    unfolding run_one_simulation_def by (auto dest: balls_loop_draws simp: length_py_range)
  with r ok show ?thesis by (simp add: bins_ok_def)
qed

lemma trials_loop_Inr:
  "run_one_simulation c u i = Inr (d, i1) \<Longrightarrow>
   append_trial (py_range (N c + 1)) d tr = Inr tr1 \<Longrightarrow>
   trials_loop c u (t # ts) tr i = trials_loop c u ts tr1 i1"
  by simp

lemma trials_loop_all:
  assumes N: "0 \<le> N c"
  shows "tr = (\<lambda>k. if 0 \<le> k \<and> k \<le> N c then Some (acc k) else None) \<Longrightarrow>
    \<exists>ds. length ds = length ts \<and>
      (\<forall>t<length ts. \<exists>i'.
         run_one_simulation c u (i + t * (nat (N c) * nat (B_SIM c))) = Inr (ds ! t, i')) \<and>
      trials_loop c u ts tr i =
        Inr (\<lambda>k. if 0 \<le> k \<and> k \<le> N c then Some (acc k @ map (\<lambda>d. the (d k)) ds) else None,
             i + length ts * (nat (N c) * nat (B_SIM c)))"
proof (induction ts arbitrary: tr acc i)
  case Nil
  then show ?case by (simp cong: if_cong)
next
  case (Cons t ts)
  let ?m = "nat (N c) * nat (B_SIM c)"
  from run_one_simulation_returns[OF N, of u i]
  obtain d where r: "run_one_simulation c u i = Inr (d, i + ?m)" and dom: "dom d = {0..N c}"
    by blast
  let ?acc = "\<lambda>k. acc k @ [the (d k)]"
  let ?tr = "\<lambda>k. if 0 \<le> k \<and> k \<le> N c then Some (?acc k) else None"
  have a1: "\<forall>b\<in>set (py_range (N c + 1)). \<exists>xs. tr b = Some xs"
    using Cons.prems by (simp add: set_py_range)
  have a2: "\<forall>b\<in>set (py_range (N c + 1)). \<exists>v. d b = Some v"
    using dom by (auto simp: set_py_range)
  have "(\<lambda>k. if k \<in> set (py_range (N c + 1)) then Some (the (tr k) @ [the (d k)]) else tr k) = ?tr"
    using Cons.prems by (auto simp: fun_eq_iff set_py_range)
  with append_trial_all[OF distinct_py_range a1 a2]
  have ap: "append_trial (py_range (N c + 1)) d tr = Inr ?tr" by simp
  from Cons.IH[of ?tr ?acc "i + ?m", OF refl]
  obtain ds where len: "length ds = length ts"
    and runs: "\<forall>t<length ts. \<exists>i'.
         run_one_simulation c u (i + ?m + t * ?m) = Inr (ds ! t, i')"
    and res: "trials_loop c u ts ?tr (i + ?m) =
        Inr (\<lambda>k. if 0 \<le> k \<and> k \<le> N c then Some (?acc k @ map (\<lambda>d. the (d k)) ds) else None,
             i + ?m + length ts * ?m)"
    by blast
  have 1: "length (d # ds) = length (t # ts)" using len by simp
  have 2: "\<forall>t'<length (t # ts). \<exists>i'.
         run_one_simulation c u (i + t' * ?m) = Inr ((d # ds) ! t', i')"
  proof (intro allI impI)
    fix t' assume lt: "t' < length (t # ts)"
    show "\<exists>i'. run_one_simulation c u (i + t' * ?m) = Inr ((d # ds) ! t', i')"
    proof (cases t')
      case 0
      then show ?thesis using r by simp
    next
      case (Suc j)
      with lt have "j < length ts" by simp
      with runs obtain i' where "run_one_simulation c u (i + ?m + j * ?m) = Inr (ds ! j, i')"
        by blast
      then show ?thesis using Suc by (simp add: add.assoc)
    qed
  qed
  have 3: "(\<lambda>k. if 0 \<le> k \<and> k \<le> N c then Some (?acc k @ map (\<lambda>d. the (d k)) ds) else None) =
        (\<lambda>k. if 0 \<le> k \<and> k \<le> N c then Some (acc k @ map (\<lambda>d. the (d k)) (d # ds)) else None)"
    by (simp add: fun_eq_iff)
  have 4: "i + ?m + length ts * ?m = i + length (t # ts) * ?m" by simp
  have "trials_loop c u (t # ts) tr i =
        Inr (\<lambda>k. if 0 \<le> k \<and> k \<le> N c then Some (acc k @ map (\<lambda>d. the (d k)) (d # ds)) else None,
             i + length (t # ts) * ?m)"
    unfolding trials_loop_Inr[OF r ap] res 3 4 ..
  with 1 2 show ?case by blast
qed

lemma report_loop_Cons:
  assumes "tr b = Some xs" "xs \<noteq> []"
  shows "report_loop c (b # bs) tr printed =
         report_loop c bs tr
           (printed @ [BinLine (pos_label c b) b (real_of_int (sum_list xs) / real (length xs))
                         (Max (set xs)) (Min (set xs))])"
proof -
  from assms(2) obtain x ys where xs: "xs = x # ys" by (cases xs) auto
  have "py_mean xs = Inr (real_of_int (sum_list xs) / real (length xs))"
    by (simp add: py_mean_def xs)
  moreover have "py_max xs = Inr (Max (set xs))"
    using Max.set_eq_fold[of x ys] by (simp add: py_max_def xs)
  moreover have "py_min xs = Inr (Min (set xs))"
    using Min.set_eq_fold[of x ys] by (simp add: py_min_def xs)
  ultimately show ?thesis using assms(1) by (simp add: pos_label_def)
qed

lemma report_loop_empty:
  "tr b = Some [] \<Longrightarrow> report_loop c (b # bs) tr printed = (printed, Some ZeroDivisionError)"
  by (simp add: py_mean_def)

lemma report_loop_all:
  assumes "\<forall>b\<in>set bs. \<exists>xs. tr b = Some xs \<and> xs \<noteq> []"
  shows "report_loop c bs tr printed =
         (printed @ map (\<lambda>b. BinLine (pos_label c b) b
                           (real_of_int (sum_list (the (tr b))) / real (length (the (tr b))))
                           (Max (set (the (tr b)))) (Min (set (the (tr b))))) bs, None)"
  using assms
proof (induction bs arbitrary: printed)
  case Nil
  then show ?case by simp
next
  case (Cons b bs)
  then obtain xs where xs: "tr b = Some xs" "xs \<noteq> []" by auto
  from Cons.prems have "\<forall>b\<in>set bs. \<exists>xs. tr b = Some xs \<and> xs \<noteq> []" by simp
  from Cons.IH[OF this] show ?case
    unfolding report_loop_Cons[where tr=tr, OF xs] using xs by simp
qed

lemma simulation_mode_no_trial:
  assumes "0 \<le> N c" "n_sim \<le> 0"
  shows "simulation_mode c u n_sim = ([Header n_sim], Some ZeroDivisionError)"
proof -
  have r: "py_range n_sim = []" using assms(2) by (simp add: py_range_def)
  have "0 < N c + 1" using assms(1) by simp
  from py_range_Cons[OF this] obtain bs where bs: "py_range (N c + 1) = 0 # bs" by blast
  let ?tr = "\<lambda>k. if 0 \<le> k \<and> k \<le> N c then Some ([]::int list) else None"
  have "?tr 0 = Some []" using assms(1) by simp
  from report_loop_empty[where tr="?tr" and b=0 and c=c and bs=bs and printed="[Header n_sim]", OF this]
  show ?thesis
    unfolding simulation_mode_def r init_trials_range by (simp add: bs)
qed

lemma simulation_mode_trials:
  assumes N: "0 \<le> N c" and n: "0 < n_sim"
  shows "\<exists>ds. length ds = nat n_sim \<and>
      (\<forall>t<nat n_sim. \<exists>i'.
         run_one_simulation c u (t * (nat (N c) * nat (B_SIM c))) = Inr (ds ! t, i')) \<and>
      simulation_mode c u n_sim =
        (Header n_sim #
           map (\<lambda>b. BinLine (pos_label c b) b
                  (real_of_int (\<Sum>d\<leftarrow>ds. the (d b)) / real (nat n_sim))
                  (Max ((\<lambda>d. the (d b)) ` set ds)) (Min ((\<lambda>d. the (d b)) ` set ds)))
             (py_range (N c + 1)), None)"
proof -
  let ?tr0 = "\<lambda>k. if 0 \<le> k \<and> k \<le> N c then Some ([]::int list) else None"
  from trials_loop_all[OF N, of ?tr0 "\<lambda>k. []" "py_range n_sim" u 0, OF refl]
  obtain ds where len: "length ds = nat n_sim"
    and runs: "\<forall>t<nat n_sim. \<exists>i'.
         run_one_simulation c u (t * (nat (N c) * nat (B_SIM c))) = Inr (ds ! t, i')"
    and res: "trials_loop c u (py_range n_sim) ?tr0 0 =
        Inr (\<lambda>k. if 0 \<le> k \<and> k \<le> N c then Some ([] @ map (\<lambda>d. the (d k)) ds) else None,
             0 + length (py_range n_sim) * (nat (N c) * nat (B_SIM c)))"
    by (auto simp: length_py_range)
  let ?tr = "\<lambda>k. if 0 \<le> k \<and> k \<le> N c then Some ([] @ map (\<lambda>d. the (d k)) ds) else None"
  have ne: "ds \<noteq> []" using len n by auto
  have ok: "\<forall>b\<in>set (py_range (N c + 1)). \<exists>xs. ?tr b = Some xs \<and> xs \<noteq> []"
    using ne by (simp add: set_py_range)
  have lines: "map (\<lambda>b. BinLine (pos_label c b) b
                  (real_of_int (sum_list (the (?tr b))) / real (length (the (?tr b))))
                  (Max (set (the (?tr b)))) (Min (set (the (?tr b))))) (py_range (N c + 1)) =
        map (\<lambda>b. BinLine (pos_label c b) b
                  (real_of_int (\<Sum>d\<leftarrow>ds. the (d b)) / real (nat n_sim))
                  (Max ((\<lambda>d. the (d b)) ` set ds)) (Min ((\<lambda>d. the (d b)) ` set ds)))
             (py_range (N c + 1))"
    by (rule map_cong[OF refl]) (simp add: set_py_range len)
  have "simulation_mode c u n_sim =
        report_loop c (py_range (N c + 1)) ?tr [Header n_sim]"
    unfolding simulation_mode_def init_trials_range res by simp
  also have "\<dots> = ([Header n_sim] @ map (\<lambda>b. BinLine (pos_label c b) b
                  (real_of_int (sum_list (the (?tr b))) / real (length (the (?tr b))))
                  (Max (set (the (?tr b)))) (Min (set (the (?tr b))))) (py_range (N c + 1)), None)"
    by (rule report_loop_all[OF ok])
  finally have "simulation_mode c u n_sim =
        (Header n_sim #
           map (\<lambda>b. BinLine (pos_label c b) b
                  (real_of_int (\<Sum>d\<leftarrow>ds. the (d b)) / real (nat n_sim))
                  (Max ((\<lambda>d. the (d b)) ` set ds)) (Min ((\<lambda>d. the (d b)) ` set ds)))
             (py_range (N c + 1)), None)"
    unfolding lines by simp
  with len runs show ?thesis by blast
qed

text \<open>
  Claim C6 fails as stated: with the constants of the source and no trial, the run is not
  rejected as a configuration error, it ends in \<open>ZeroDivisionError\<close> after the header.
\<close>

theorem empty_trial_set_counterexample:
  "simulation_mode default_config (always (1 / 2)) 0 = ([Header 0], Some ZeroDivisionError)"
  by (simp add: simulation_mode_def default_config_def py_range_def upt_rec py_mean_def)

text \<open>
  Claim C6, as the code has it. The script has no check for an empty trial set. With
  \<open>N \<ge> 0\<close> and no trial (\<open>n_sim \<le> 0\<close>) it prints the header and then fails with an unguarded
  \<open>ZeroDivisionError\<close>, raised by the mean of the first bin; no line of statistics is printed.
  With at least one trial it prints the header and, for every bin \<open>0, ..., N\<close>, the mean, the
  maximum and the minimum of the counts that the \<open>n_sim\<close> trials gave that bin, where trial
  \<open>t\<close> is the run of \<open>run_one_simulation\<close> that starts after \<open>t * N * B_SIM\<close> draws.
\<close>

theorem aggregation_of_trials:
  assumes "0 \<le> N c"
  shows "(n_sim \<le> 0 \<longrightarrow> simulation_mode c u n_sim = ([Header n_sim], Some ZeroDivisionError)) \<and>
    (0 < n_sim \<longrightarrow>
      (\<exists>ds. length ds = nat n_sim \<and>
        (\<forall>t<nat n_sim. \<exists>i'.
           run_one_simulation c u (t * (nat (N c) * nat (B_SIM c))) = Inr (ds ! t, i')) \<and>
        simulation_mode c u n_sim =
          (Header n_sim #
             map (\<lambda>b. BinLine (pos_label c b) b
                    (real_of_int (\<Sum>d\<leftarrow>ds. the (d b)) / real (nat n_sim))
                    (Max ((\<lambda>d. the (d b)) ` set ds)) (Min ((\<lambda>d. the (d b)) ` set ds)))
               (py_range (N c + 1)), None)))"
  using simulation_mode_no_trial[OF assms] simulation_mode_trials[OF assms] by blast

theorem aggregation_of_trials_witness:
  "snd (simulation_mode default_config (always (1 / 2)) 0) = Some ZeroDivisionError \<and>
   snd (simulation_mode default_config (always (1 / 2)) 10) = None \<and>
   length (fst (simulation_mode default_config (always (1 / 2)) 10)) = 12"
proof -
  have N: "0 \<le> N default_config" by (simp add: default_config_def)
  have "N default_config = 10" by (simp add: default_config_def)
  with aggregation_of_trials[OF N, of 0 "always (1 / 2)"]
    aggregation_of_trials[OF N, of 10 "always (1 / 2)"]
  show ?thesis by (auto simp: length_py_range)
qed

section \<open>Physical mode\<close>

lemma length_readings: "length (readings e t ms) = length ms"
  by (induction ms arbitrary: t) simp_all

lemma readings_nth: "k < length ms \<Longrightarrow> readings e t ms ! k = get_position e (t + k) (ms ! k)"
proof (induction ms arbitrary: t k)
  case Nil
  then show ?case by simp
next
  case (Cons m ms)
  then show ?case by (cases k) simp_all
qed

lemma capture_positions_draws: "draws (capture_positions e ms s) = draws s"
  by (induction ms arbitrary: s) (simp_all add: Let_def)

lemma capture_positions_trace:
  "trace (capture_positions e ms s) =
   trace s @ map2 GetPosition ms (readings e (length (trace s)) ms)"
  by (induction ms arbitrary: s) (simp_all add: Let_def)

lemma capture_positions_keys:
  "fst ` set (initial_positions (capture_positions e ms s)) =
   fst ` set (initial_positions s) \<union> set ms"
  by (induction ms arbitrary: s) (auto simp: Let_def dom_update)

lemma update_fresh: "k \<notin> fst ` set al \<Longrightarrow> AList.update k v al = al @ [(k, v)]"
  by (induction al) auto

lemma capture_positions_distinct:
  "distinct ms \<Longrightarrow> set ms \<inter> fst ` set (initial_positions s) = {} \<Longrightarrow>
   initial_positions (capture_positions e ms s) =
   initial_positions s @ zip ms (readings e (length (trace s)) ms)"
proof (induction ms arbitrary: s)
  case Nil
  then show ?case by simp
next
  case (Cons m ms)
  let ?v = "get_position e (length (trace s)) m"
  let ?s = "s\<lparr>initial_positions := AList.update m ?v (initial_positions s),
              trace := trace s @ [GetPosition m ?v]\<rparr>"
  from Cons.prems have fresh: "m \<notin> fst ` set (initial_positions s)" by auto
  then have ips: "initial_positions ?s = initial_positions s @ [(m, ?v)]"
    by (simp add: update_fresh)
  have "distinct ms" using Cons.prems by simp
  moreover have "set ms \<inter> fst ` set (initial_positions ?s) = {}"
    using Cons.prems unfolding ips by auto
  ultimately have "initial_positions (capture_positions e ms ?s) =
      initial_positions ?s @ zip ms (readings e (length (trace ?s)) ms)"
    by (rule Cons.IH)
  then show ?case unfolding ips by (simp add: Let_def)
qed

lemma length_moves: "length (moves c u ps rec ms rc i) = length ms"
  by (induction ms arbitrary: rc i) simp_all

lemma moves_nth:
  "j < length ms \<Longrightarrow>
   moves c u ps rec ms rc i ! j =
     RunToPosition (ms ! j)
       (if (u (i + j) < P c \<and> (ps + (rc + int j + 1)) mod 2 = 0) \<or>
           (\<not> u (i + j) < P c \<and> (ps + (rc + int j + 1)) mod 2 = 1)
        then (the (rec (ms ! j)) + MOTOR_OPENING_DEGREES c) mod 360
        else (the (rec (ms ! j)) - MOTOR_OPENING_DEGREES c) mod 360)
       ''shortest path'' (MOTOR_SPEED c)"
proof (induction ms arbitrary: rc i j)
  case Nil
  then show ?case by simp
next
  case (Cons m ms)
  show ?case
  proof (cases j)
    case 0
    then show ?thesis by simp
  next
    case (Suc j')
    with Cons.prems have "j' < length ms" by simp
    from Cons.IH[OF this, of "rc + 1" "Suc i"] show ?thesis
      using Suc by (simp add: algebra_simps)
  qed
qed

lemma truthy_parity: "truthy (x mod 2) \<longleftrightarrow> x mod 2 = 1"
  unfolding truthy_def by presburger

lemma move_loop_Cons:
  assumes "map_of (initial_positions s) m = Some ip"
  shows "move_loop c u ps (m # ms) rc s =
         move_loop c u ps ms (rc + 1)
           (s\<lparr>draws := Suc (draws s),
              trace := trace s @
                [RunToPosition m
                   (if (u (draws s) < P c \<and> (ps + (rc + 1)) mod 2 = 0) \<or>
                       (\<not> u (draws s) < P c \<and> (ps + (rc + 1)) mod 2 = 1)
                    then (ip + MOTOR_OPENING_DEGREES c) mod 360
                    else (ip - MOTOR_OPENING_DEGREES c) mod 360)
                   ''shortest path'' (MOTOR_SPEED c)]\<rparr>)"
proof -
  have par: "(ps + (rc + 1)) mod 2 \<noteq> 1 \<longleftrightarrow> (ps + (rc + 1)) mod 2 = 0" by presburger
  show ?thesis
    using assms by (simp add: bern_def Let_def truthy_parity par) (simp add: truthy_def)
qed

lemma move_loop_all:
  assumes "\<forall>m\<in>set ms. \<exists>ip. map_of (initial_positions s) m = Some ip"
  shows "move_loop c u ps ms rc s =
         (s\<lparr>draws := draws s + length ms,
            trace := trace s @ moves c u ps (map_of (initial_positions s)) ms rc (draws s)\<rparr>, None)"
  using assms
proof (induction ms arbitrary: rc s)
  case Nil
  then show ?case by simp
next
  case (Cons m ms)
  then obtain ip where ip: "map_of (initial_positions s) m = Some ip" by auto
  let ?s = "s\<lparr>draws := Suc (draws s),
              trace := trace s @
                [RunToPosition m
                   (if (u (draws s) < P c \<and> (ps + (rc + 1)) mod 2 = 0) \<or>
                       (\<not> u (draws s) < P c \<and> (ps + (rc + 1)) mod 2 = 1)
                    then (ip + MOTOR_OPENING_DEGREES c) mod 360
                    else (ip - MOTOR_OPENING_DEGREES c) mod 360)
                   ''shortest path'' (MOTOR_SPEED c)]\<rparr>"
  have "\<forall>m\<in>set ms. \<exists>ip. map_of (initial_positions ?s) m = Some ip"
    using Cons.prems by simp
  from Cons.IH[OF this, of "rc + 1"] show ?case
    unfolding move_loop_Cons[OF ip] using ip by simp
qed

lemma reset_loop_Cons:
  "map_of (initial_positions s) m = Some ip \<Longrightarrow>
   reset_loop c (m # ms) s =
   reset_loop c ms (s\<lparr>trace := trace s @ [RunToPosition m ip ''shortest path'' (MOTOR_SPEED c)]\<rparr>)"
  by simp

lemma reset_loop_all:
  assumes "\<forall>m\<in>set ms. \<exists>ip. map_of (initial_positions s) m = Some ip"
  shows "reset_loop c ms s =
         (s\<lparr>trace := trace s @ resets c (map_of (initial_positions s)) ms\<rparr>, None)"
  using assms
proof (induction ms arbitrary: s)
  case Nil
  then show ?case by (simp add: resets_def)
next
  case (Cons m ms)
  then obtain ip where ip: "map_of (initial_positions s) m = Some ip" by auto
  let ?s = "s\<lparr>trace := trace s @ [RunToPosition m ip ''shortest path'' (MOTOR_SPEED c)]\<rparr>"
  have "\<forall>m\<in>set ms. \<exists>ip. map_of (initial_positions ?s) m = Some ip"
    using Cons.prems by simp
  from Cons.IH[OF this] show ?case
    unfolding reset_loop_Cons[OF ip] using ip by (simp add: resets_def)
qed

lemma run_events_Suc:
  "run_events c u ps rec ms i (Suc n) =
   cycle_events c u ps rec ms i # run_events c u ps rec ms (i + length ms) n"
proof -
  have "[0..<Suc n] = 0 # map Suc [0..<n]"
    by (simp add: upt_conv_Cons map_Suc_upt del: upt_Suc)
  then show ?thesis
    unfolding run_events_def by (simp add: o_def add.assoc del: upt_Suc)
qed

lemma length_run_events: "length (run_events c u ps rec ms i n) = n"
  by (simp add: run_events_def)

lemma length_cycle_events: "length (cycle_events c u ps rec ms i) = 2 * length ms + 1"
  by (simp add: cycle_events_def length_moves resets_def)

lemma run_events_nth:
  "k < n \<Longrightarrow> run_events c u ps rec ms i n ! k = cycle_events c u ps rec ms (i + k * length ms)"
  by (simp add: run_events_def)

lemma cycles_all:
  assumes "\<forall>m\<in>set ms. \<exists>ip. map_of (initial_positions s) m = Some ip"
  shows "n = nat (B c - bc) \<Longrightarrow>
         cycles c u ps ms bc s =
         (s\<lparr>draws := draws s + n * length ms,
            trace := trace s @
              concat (run_events c u ps (map_of (initial_positions s)) ms (draws s) n)\<rparr>, None)"
  using assms
proof (induction n arbitrary: bc s)
  case 0
  then have "\<not> bc < B c" by simp
  then show ?case by (subst cycles.simps) (simp add: run_events_def)
next
  case (Suc n)
  let ?rec = "map_of (initial_positions s)"
  from Suc.prems(1) have lt: "bc < B c" and n: "n = nat (B c - (bc + 1))" by simp_all
  let ?s1 = "s\<lparr>draws := draws s + length ms,
               trace := trace s @ moves c u ps ?rec ms 0 (draws s)\<rparr>"
  let ?s1w = "?s1\<lparr>trace := trace ?s1 @ [WaitForSeconds 5]\<rparr>"
  let ?s2 = "?s1w\<lparr>trace := trace ?s1w @ resets c ?rec ms\<rparr>"
  have mv: "move_loop c u ps ms 0 s = (?s1, None)"
    by (rule move_loop_all[OF Suc.prems(2)])
  have k1: "\<forall>m\<in>set ms. \<exists>ip. map_of (initial_positions ?s1w) m = Some ip"
    using Suc.prems(2) by simp
  have rs: "reset_loop c ms ?s1w = (?s2, None)"
    using reset_loop_all[OF k1, of c] by simp
  have k2: "\<forall>m\<in>set ms. \<exists>ip. map_of (initial_positions ?s2) m = Some ip"
    using Suc.prems(2) by simp
  have step: "cycles c u ps ms bc s = cycles c u ps ms (bc + 1) ?s2"
    using lt mv rs by (subst cycles.simps) simp
  have "cycles c u ps ms (bc + 1) ?s2 =
        (?s2\<lparr>draws := draws ?s2 + n * length ms,
             trace := trace ?s2 @
               concat (run_events c u ps (map_of (initial_positions ?s2)) ms (draws ?s2) n)\<rparr>, None)"
    by (rule Suc.IH[OF n k2])
  then show ?case
    unfolding step by (simp add: run_events_Suc cycle_events_def)
qed

lemma recorded_keys: "fst ` set (recorded c e) = set (motor_order_of c)"
  by (simp add: recorded_def capture_positions_keys)

lemma recorded_Some: "m \<in> set (motor_order_of c) \<Longrightarrow> \<exists>ip. map_of (recorded c e) m = Some ip"
  using recorded_keys[of c e] by (metis domD dom_map_of_conv_image_fst)

lemma recorded_distinct:
  "distinct (motor_order_of c) \<Longrightarrow>
   recorded c e = zip (motor_order_of c) (readings e 1 (motor_order_of c))"
  unfolding recorded_def by (subst capture_positions_distinct) simp_all

lemma physical_mode_started:
  assumes "MODE c = ''top'' \<or> button_pressed e"
  shows "physical_mode c e =
    (\<lparr>draws = nat (B c) * length (motor_order_of c),
      initial_positions = recorded c e,
      trace = startup c e @ sync_events c @
        concat (run_events c (uniform e) (parity_start_of c) (map_of (recorded c e))
                  (motor_order_of c) 0 (nat (B c)))\<rparr>, Finished)"
proof -
  let ?ms = "motor_order_of c"
  let ?s0 = "\<lparr>draws = 0, initial_positions = [], trace = [ShowImage ''HEART'']\<rparr>"
  let ?s1 = "capture_positions e ?ms ?s0"
  have s1: "?s1 = \<lparr>draws = 0, initial_positions = recorded c e,
                   trace = ShowImage ''HEART'' # map2 GetPosition ?ms (readings e 1 ?ms)\<rparr>"
    using capture_positions_draws[of e ?ms ?s0] capture_positions_trace[of e ?ms ?s0]
    by (simp add: recorded_def)
  define sync where "sync = sync_events c"
  let ?s3 = "\<lparr>draws = 0, initial_positions = recorded c e, trace = startup c e @ sync\<rparr>"
  have keys: "\<forall>m\<in>set ?ms. \<exists>ip. map_of (initial_positions ?s3) m = Some ip"
    by (simp add: recorded_Some)
  have cy: "cycles c (uniform e) (parity_start_of c) ?ms 0 ?s3 =
      (?s3\<lparr>draws := draws ?s3 + nat (B c) * length ?ms,
           trace := trace ?s3 @
             concat (run_events c (uniform e) (parity_start_of c)
                       (map_of (initial_positions ?s3)) ?ms (draws ?s3) (nat (B c)))\<rparr>, None)"
    by (rule cycles_all[OF keys]) simp
  have "physical_mode c e =
        (case cycles c (uniform e) (parity_start_of c) ?ms 0 ?s3 of
           (s', None) \<Rightarrow> (s', Finished) | (s', Some err) \<Rightarrow> (s', Raised err))"
  proof (cases "MODE c = ''top''")
    case True
    then show ?thesis
      unfolding physical_mode_def Let_def s1 by (simp add: startup_def sync_def sync_events_def)
  next
    case False
    with assms have "button_pressed e" by simp
    with False show ?thesis
      unfolding physical_mode_def Let_def s1 by (simp add: startup_def sync_def sync_events_def)
  qed
  then show ?thesis unfolding cy by (simp add: sync_def)
qed

lemma physical_mode_blocked:
  assumes "MODE c \<noteq> ''top''" "\<not> button_pressed e"
  shows "physical_mode c e =
    (\<lparr>draws = 0, initial_positions = recorded c e,
      trace = startup c e @ [WaitUntilPressed]\<rparr>, Blocked)"
proof -
  let ?ms = "motor_order_of c"
  let ?s0 = "\<lparr>draws = 0, initial_positions = [], trace = [ShowImage ''HEART'']\<rparr>"
  let ?s1 = "capture_positions e ?ms ?s0"
  have s1: "?s1 = \<lparr>draws = 0, initial_positions = recorded c e,
                   trace = ShowImage ''HEART'' # map2 GetPosition ?ms (readings e 1 ?ms)\<rparr>"
    using capture_positions_draws[of e ?ms ?s0] capture_positions_trace[of e ?ms ?s0]
    by (simp add: recorded_def)
  show ?thesis
    using assms unfolding physical_mode_def Let_def s1 by (simp add: startup_def)
qed

lemma bern_right: "fst (bern c u i) = 1 \<longleftrightarrow> u i < P c"
  by (simp add: bern_def)

lemma startup_no_command: "ev \<in> set (startup c e) \<Longrightarrow> \<not> is_actuator_command ev"
  by (auto simp: startup_def dest!: set_zip_rightD set_zip_leftD in_set_zipE)

lemma sync_no_command: "ev \<in> set (sync_events c) \<Longrightarrow> \<not> is_actuator_command ev"
  by (auto simp: sync_events_def split: if_splits)

lemma pre_no_command:
  "\<forall>ev\<in>set (startup c e @ sync_events c). \<not> is_actuator_command ev"
  using startup_no_command sync_no_command by auto

lemma started_trace:
  assumes "MODE c = ''top'' \<or> button_pressed e"
  shows "trace (fst (physical_mode c e)) =
           (startup c e @ sync_events c) @
           concat (run_events c (uniform e) (parity_start_of c) (map_of (recorded c e))
                     (motor_order_of c) 0 (nat (B c)))"
    and "initial_positions (fst (physical_mode c e)) = recorded c e"
    and "draws (fst (physical_mode c e)) = nat (B c) * length (motor_order_of c)"
    and "snd (physical_mode c e) = Finished"
  unfolding physical_mode_started[OF assms] by simp_all

lemma blocked_trace:
  assumes "MODE c \<noteq> ''top''" "\<not> button_pressed e"
  shows "trace (fst (physical_mode c e)) = startup c e @ [WaitUntilPressed]"
    and "initial_positions (fst (physical_mode c e)) = recorded c e"
    and "draws (fst (physical_mode c e)) = 0"
    and "snd (physical_mode c e) = Blocked"
  unfolding physical_mode_blocked[OF assms] by simp_all

lemma cycle_move_nth:
  assumes "j < length ms"
  shows "cycle_events c u ps rec ms i ! j =
     RunToPosition (ms ! j)
       (if (fst (bern c u (i + j)) = 1 \<and> (ps + (int j + 1)) mod 2 = 0) \<or>
           (fst (bern c u (i + j)) \<noteq> 1 \<and> (ps + (int j + 1)) mod 2 = 1)
        then (the (rec (ms ! j)) + MOTOR_OPENING_DEGREES c) mod 360
        else (the (rec (ms ! j)) - MOTOR_OPENING_DEGREES c) mod 360)
       ''shortest path'' (MOTOR_SPEED c)"
  using assms moves_nth[OF assms, of c u ps rec 0 i]
  by (simp add: cycle_events_def nth_append length_moves bern_right)

text \<open>
  Claim C4. When the run starts (top hub, or the button is pressed), the trace is the
  events before the first cycle followed by \<open>B\<close> cycles. In cycle \<open>k\<close> the command for the
  \<open>j\<close>-th motor of the list (row count \<open>j + 1\<close>) follows the truth table: with
  \<open>right\<close> the draw of \<open>bern\<close> for that motor and
  \<open>parity = (parity_start + row_count) mod 2\<close>, where \<open>parity_start\<close> is 1 for the top hub
  and 0 otherwise, the motor moves to \<open>(initial + opening) mod 360\<close> exactly when
  \<open>right\<close> and \<open>parity = 0\<close>, or not \<open>right\<close> and \<open>parity = 1\<close>, and to
  \<open>(initial - opening) mod 360\<close> otherwise.
\<close>

theorem direction_truth_table:
  assumes "MODE c = ''top'' \<or> button_pressed e"
  shows "\<exists>pre cs.
    trace (fst (physical_mode c e)) = pre @ concat cs \<and>
    (\<forall>ev\<in>set pre. \<not> is_actuator_command ev) \<and>
    length cs = nat (B c) \<and>
    (\<forall>k<nat (B c).
       length (cs ! k) = 2 * length (motor_order_of c) + 1 \<and>
       (\<forall>j<length (motor_order_of c).
          cs ! k ! j =
            RunToPosition (motor_order_of c ! j)
              (if (fst (bern c (uniform e) (k * length (motor_order_of c) + j)) = 1 \<and>
                   ((if MODE c = ''top'' then 1 else 0) + (int j + 1)) mod 2 = 0) \<or>
                  (fst (bern c (uniform e) (k * length (motor_order_of c) + j)) \<noteq> 1 \<and>
                   ((if MODE c = ''top'' then 1 else 0) + (int j + 1)) mod 2 = 1)
               then (the (map_of (initial_positions (fst (physical_mode c e)))
                            (motor_order_of c ! j)) + MOTOR_OPENING_DEGREES c) mod 360
               else (the (map_of (initial_positions (fst (physical_mode c e)))
                            (motor_order_of c ! j)) - MOTOR_OPENING_DEGREES c) mod 360)
              ''shortest path'' (MOTOR_SPEED c)))"
proof -
  let ?ms = "motor_order_of c"
  let ?pre = "startup c e @ sync_events c"
  let ?cs = "run_events c (uniform e) (parity_start_of c) (map_of (recorded c e)) ?ms 0 (nat (B c))"
  have "\<forall>k<nat (B c).
       length (?cs ! k) = 2 * length ?ms + 1 \<and>
       (\<forall>j<length ?ms.
          ?cs ! k ! j =
            RunToPosition (?ms ! j)
              (if (fst (bern c (uniform e) (k * length ?ms + j)) = 1 \<and>
                   ((if MODE c = ''top'' then 1 else 0) + (int j + 1)) mod 2 = 0) \<or>
                  (fst (bern c (uniform e) (k * length ?ms + j)) \<noteq> 1 \<and>
                   ((if MODE c = ''top'' then 1 else 0) + (int j + 1)) mod 2 = 1)
               then (the (map_of (recorded c e) (?ms ! j)) + MOTOR_OPENING_DEGREES c) mod 360
               else (the (map_of (recorded c e) (?ms ! j)) - MOTOR_OPENING_DEGREES c) mod 360)
              ''shortest path'' (MOTOR_SPEED c))"
    by (simp add: run_events_nth length_cycle_events cycle_move_nth parity_start_of_def)
  then show ?thesis
    using started_trace(1,2)[OF assms] pre_no_command[of c e] length_run_events
    by (intro exI[of _ ?pre] exI[of _ ?cs]) simp
qed

lemma opening_congruent:
  fixes ip d :: int
  shows "(((ip + d) mod 360 - ip) mod 360 = d mod 360)"
    and "((ip - (ip - d) mod 360) mod 360 = d mod 360)"
  by (simp_all add: mod_diff_left_eq mod_diff_right_eq)

lemma opening_nearest:
  fixes ip d t :: int
  assumes "0 \<le> d" "d \<le> 180" "t = (ip + d) mod 360 \<or> t = (ip - d) mod 360"
  shows "min ((t - ip) mod 360) ((ip - t) mod 360) = d"
proof -
  have d1: "d mod 360 = d" using assms(1,2) by simp
  have d2: "(- d) mod 360 = (if d = 0 then 0 else 360 - d)"
  proof (cases "d = 0")
    case True
    then show ?thesis by simp
  next
    case False
    with assms(1,2) have "0 \<le> 360 - d" "360 - d < 360" by simp_all
    then have "(360 - d) mod 360 = 360 - d" by (rule mod_pos_pos_trivial)
    moreover have "(360 + (- d)) mod 360 = (- d) mod 360" by (rule mod_add_self1)
    ultimately have "(- d) mod 360 = 360 - d" by (simp only: add_uminus_conv_diff)
    then show ?thesis using False by (simp only: if_False)
  qed
  have m: "min d (if d = 0 then 0 else 360 - d) = d"
    "min (if d = 0 then 0 else 360 - d) d = d"
    using assms(1,2) by (simp_all add: min_def)
  from assms(3) show ?thesis
  proof
    assume t: "t = (ip + d) mod 360"
    have "(t - ip) mod 360 = d mod 360" unfolding t by (simp add: mod_diff_left_eq)
    moreover have "(ip - t) mod 360 = (- d) mod 360" unfolding t by (simp add: mod_diff_right_eq)
    ultimately show ?thesis by (simp only: d1 d2 m)
  next
    assume t: "t = (ip - d) mod 360"
    have "(t - ip) mod 360 = (- d) mod 360" unfolding t by (simp add: mod_diff_left_eq)
    moreover have "(ip - t) mod 360 = d mod 360" unfolding t by (simp add: mod_diff_right_eq)
    ultimately show ?thesis by (simp only: d1 d2 m)
  qed
qed

text \<open>
  Claim C5. When the run starts, the script finishes, and its trace is the events before
  the first cycle (none of them a command to an actuator or a wait) followed by exactly
  \<open>B\<close> cycles (none when \<open>B \<le> 0\<close>). Each cycle is one move command for every motor of
  the list, in order, then the wait of 5 seconds, then one command for every motor of the
  list, in order, to its recorded initial position, with the same speed and the same
  \<open>shortest path\<close> direction. Nothing follows the last cycle.
\<close>

theorem sequencer_cycles:
  assumes "MODE c = ''top'' \<or> button_pressed e"
  shows "snd (physical_mode c e) = Finished \<and>
    (\<exists>pre cs.
       trace (fst (physical_mode c e)) = pre @ concat cs \<and>
       (\<forall>ev\<in>set pre. \<not> is_actuator_command ev \<and> ev \<noteq> WaitForSeconds 5) \<and>
       length cs = nat (B c) \<and>
       (\<forall>cy\<in>set cs. \<exists>mv.
          cy = mv @ [WaitForSeconds 5] @
                 map (\<lambda>m. RunToPosition m
                             (the (map_of (initial_positions (fst (physical_mode c e))) m))
                             ''shortest path'' (MOTOR_SPEED c))
                   (motor_order_of c) \<and>
          length mv = length (motor_order_of c) \<and>
          (\<forall>j<length (motor_order_of c). \<exists>t.
             mv ! j = RunToPosition (motor_order_of c ! j) t ''shortest path'' (MOTOR_SPEED c))))"
proof -
  let ?ms = "motor_order_of c"
  let ?pre = "startup c e @ sync_events c"
  let ?rec = "map_of (recorded c e)"
  let ?cs = "run_events c (uniform e) (parity_start_of c) ?rec ?ms 0 (nat (B c))"
  have pre: "\<forall>ev\<in>set ?pre. \<not> is_actuator_command ev \<and> ev \<noteq> WaitForSeconds 5"
    using pre_no_command[of c e]
    by (auto simp: startup_def sync_events_def dest!: set_zip_rightD set_zip_leftD in_set_zipE
        split: if_splits)
  have cyc: "\<forall>cy\<in>set ?cs. \<exists>mv.
          cy = mv @ [WaitForSeconds 5] @
                 map (\<lambda>m. RunToPosition m (the (?rec m)) ''shortest path'' (MOTOR_SPEED c)) ?ms \<and>
          length mv = length ?ms \<and>
          (\<forall>j<length ?ms. \<exists>t.
             mv ! j = RunToPosition (?ms ! j) t ''shortest path'' (MOTOR_SPEED c))"
  proof
    fix cy assume "cy \<in> set ?cs"
    then obtain i where cy: "cy = cycle_events c (uniform e) (parity_start_of c) ?rec ?ms i"
      by (auto simp: run_events_def)
    let ?mv = "moves c (uniform e) (parity_start_of c) ?rec ?ms 0 i"
    have "cy = ?mv @ [WaitForSeconds 5] @
                 map (\<lambda>m. RunToPosition m (the (?rec m)) ''shortest path'' (MOTOR_SPEED c)) ?ms"
      by (simp add: cy cycle_events_def resets_def)
    moreover have "length ?mv = length ?ms" by (simp add: length_moves)
    moreover have "\<forall>j<length ?ms. \<exists>t.
             ?mv ! j = RunToPosition (?ms ! j) t ''shortest path'' (MOTOR_SPEED c)"
      by (simp add: moves_nth)
    ultimately show "\<exists>mv.
          cy = mv @ [WaitForSeconds 5] @
                 map (\<lambda>m. RunToPosition m (the (?rec m)) ''shortest path'' (MOTOR_SPEED c)) ?ms \<and>
          length mv = length ?ms \<and>
          (\<forall>j<length ?ms. \<exists>t.
             mv ! j = RunToPosition (?ms ! j) t ''shortest path'' (MOTOR_SPEED c))"
      by blast
  qed
  have "\<exists>pre cs.
       trace (fst (physical_mode c e)) = pre @ concat cs \<and>
       (\<forall>ev\<in>set pre. \<not> is_actuator_command ev \<and> ev \<noteq> WaitForSeconds 5) \<and>
       length cs = nat (B c) \<and>
       (\<forall>cy\<in>set cs. \<exists>mv.
          cy = mv @ [WaitForSeconds 5] @
                 map (\<lambda>m. RunToPosition m (the (?rec m)) ''shortest path'' (MOTOR_SPEED c)) ?ms \<and>
          length mv = length ?ms \<and>
          (\<forall>j<length ?ms. \<exists>t.
             mv ! j = RunToPosition (?ms ! j) t ''shortest path'' (MOTOR_SPEED c)))"
    using started_trace(1)[OF assms] pre cyc length_run_events
    by (intro exI[of _ ?pre] exI[of _ ?cs]) simp
  then show ?thesis
    unfolding started_trace(2)[OF assms] using started_trace(4)[OF assms] by simp
qed

theorem sequencer_cycles_witness:
  "snd (physical_mode (default_config\<lparr>MODE := ''top''\<rparr>) example_env) = Finished \<and>
   (\<exists>pre cs. trace (fst (physical_mode (default_config\<lparr>MODE := ''top''\<rparr>) example_env)) =
        pre @ concat cs \<and> length cs = 50)"
proof -
  have h: "MODE (default_config\<lparr>MODE := ''top''\<rparr>) = ''top'' \<or> button_pressed example_env"
    by simp
  have "nat (B (default_config\<lparr>MODE := ''top''\<rparr>)) = 50" by (simp add: default_config_def)
  with sequencer_cycles[OF h] show ?thesis by metis
qed

text \<open>
  Claim C3, as the code has it. In every cycle of a run, the move command of each motor
  has a target in \<open>[0, 360)\<close> that differs from the recorded initial position of the
  motor by the opening angle modulo 360, in one direction or the other, and is sent with
  the direction \<open>shortest path\<close>; when the opening angle is between 0 and 180, the
  shorter rotation between the two positions is exactly the opening angle. The reset
  command of each motor has the recorded initial position itself as its target.
\<close>

theorem move_and_reset_targets:
  assumes "MODE c = ''top'' \<or> button_pressed e"
  shows "\<exists>pre cs.
    trace (fst (physical_mode c e)) = pre @ concat cs \<and>
    (\<forall>ev\<in>set pre. \<not> is_actuator_command ev) \<and>
    length cs = nat (B c) \<and>
    (\<forall>k<nat (B c). \<exists>mv rs.
       cs ! k = mv @ [WaitForSeconds 5] @ rs \<and>
       length mv = length (motor_order_of c) \<and> length rs = length (motor_order_of c) \<and>
       (\<forall>j<length (motor_order_of c). \<exists>t ip.
          map_of (initial_positions (fst (physical_mode c e))) (motor_order_of c ! j) = Some ip \<and>
          mv ! j = RunToPosition (motor_order_of c ! j) t ''shortest path'' (MOTOR_SPEED c) \<and>
          0 \<le> t \<and> t < 360 \<and>
          ((t - ip) mod 360 = MOTOR_OPENING_DEGREES c mod 360 \<or>
           (ip - t) mod 360 = MOTOR_OPENING_DEGREES c mod 360) \<and>
          (0 \<le> MOTOR_OPENING_DEGREES c \<and> MOTOR_OPENING_DEGREES c \<le> 180 \<longrightarrow>
             min ((t - ip) mod 360) ((ip - t) mod 360) = MOTOR_OPENING_DEGREES c) \<and>
          rs ! j = RunToPosition (motor_order_of c ! j) ip ''shortest path'' (MOTOR_SPEED c)))"
proof -
  let ?ms = "motor_order_of c"
  let ?pre = "startup c e @ sync_events c"
  let ?rec = "map_of (recorded c e)"
  let ?u = "uniform e"
  let ?ps = "parity_start_of c"
  let ?d = "MOTOR_OPENING_DEGREES c"
  let ?cs = "run_events c ?u ?ps ?rec ?ms 0 (nat (B c))"
  have cyc: "\<forall>k<nat (B c). \<exists>mv rs.
       ?cs ! k = mv @ [WaitForSeconds 5] @ rs \<and>
       length mv = length ?ms \<and> length rs = length ?ms \<and>
       (\<forall>j<length ?ms. \<exists>t ip.
          ?rec (?ms ! j) = Some ip \<and>
          mv ! j = RunToPosition (?ms ! j) t ''shortest path'' (MOTOR_SPEED c) \<and>
          0 \<le> t \<and> t < 360 \<and>
          ((t - ip) mod 360 = ?d mod 360 \<or> (ip - t) mod 360 = ?d mod 360) \<and>
          (0 \<le> ?d \<and> ?d \<le> 180 \<longrightarrow> min ((t - ip) mod 360) ((ip - t) mod 360) = ?d) \<and>
          rs ! j = RunToPosition (?ms ! j) ip ''shortest path'' (MOTOR_SPEED c))"
  proof (intro allI impI)
    fix k assume k: "k < nat (B c)"
    let ?i = "0 + k * length ?ms"
    let ?mv = "moves c ?u ?ps ?rec ?ms 0 ?i"
    let ?rs = "resets c ?rec ?ms"
    have 1: "?cs ! k = ?mv @ [WaitForSeconds 5] @ ?rs"
      using k by (simp add: run_events_nth cycle_events_def)
    have 2: "length ?mv = length ?ms" "length ?rs = length ?ms"
      by (simp_all add: length_moves resets_def)
    have 3: "\<forall>j<length ?ms. \<exists>t ip.
          ?rec (?ms ! j) = Some ip \<and>
          ?mv ! j = RunToPosition (?ms ! j) t ''shortest path'' (MOTOR_SPEED c) \<and>
          0 \<le> t \<and> t < 360 \<and>
          ((t - ip) mod 360 = ?d mod 360 \<or> (ip - t) mod 360 = ?d mod 360) \<and>
          (0 \<le> ?d \<and> ?d \<le> 180 \<longrightarrow> min ((t - ip) mod 360) ((ip - t) mod 360) = ?d) \<and>
          ?rs ! j = RunToPosition (?ms ! j) ip ''shortest path'' (MOTOR_SPEED c)"
    proof (intro allI impI)
      fix j assume j: "j < length ?ms"
      then obtain ip where ip: "?rec (?ms ! j) = Some ip"
        using recorded_Some[of "?ms ! j" c e] by auto
      define t where "t = (if (?u (?i + j) < P c \<and> (?ps + (0 + int j + 1)) mod 2 = 0) \<or>
           (\<not> ?u (?i + j) < P c \<and> (?ps + (0 + int j + 1)) mod 2 = 1)
        then (ip + ?d) mod 360 else (ip - ?d) mod 360)"
      have mv: "?mv ! j = RunToPosition (?ms ! j) t ''shortest path'' (MOTOR_SPEED c)"
        using moves_nth[OF j, of c ?u ?ps ?rec 0 ?i] ip by (simp add: t_def)
      have tt: "t = (ip + ?d) mod 360 \<or> t = (ip - ?d) mod 360"
        by (simp add: t_def)
      have rng: "0 \<le> t" "t < 360" using tt by auto
      have cong: "(t - ip) mod 360 = ?d mod 360 \<or> (ip - t) mod 360 = ?d mod 360"
        using tt opening_congruent[of ip ?d] by auto
      have near: "0 \<le> ?d \<and> ?d \<le> 180 \<longrightarrow> min ((t - ip) mod 360) ((ip - t) mod 360) = ?d"
        using opening_nearest[OF _ _ tt] by blast
      have rs: "?rs ! j = RunToPosition (?ms ! j) ip ''shortest path'' (MOTOR_SPEED c)"
        using j ip by (simp add: resets_def)
      from ip mv rng cong near rs
      show "\<exists>t ip.
          ?rec (?ms ! j) = Some ip \<and>
          ?mv ! j = RunToPosition (?ms ! j) t ''shortest path'' (MOTOR_SPEED c) \<and>
          0 \<le> t \<and> t < 360 \<and>
          ((t - ip) mod 360 = ?d mod 360 \<or> (ip - t) mod 360 = ?d mod 360) \<and>
          (0 \<le> ?d \<and> ?d \<le> 180 \<longrightarrow> min ((t - ip) mod 360) ((ip - t) mod 360) = ?d) \<and>
          ?rs ! j = RunToPosition (?ms ! j) ip ''shortest path'' (MOTOR_SPEED c)"
        by blast
    qed
    from 1 2 3 show "\<exists>mv rs.
       ?cs ! k = mv @ [WaitForSeconds 5] @ rs \<and>
       length mv = length ?ms \<and> length rs = length ?ms \<and>
       (\<forall>j<length ?ms. \<exists>t ip.
          ?rec (?ms ! j) = Some ip \<and>
          mv ! j = RunToPosition (?ms ! j) t ''shortest path'' (MOTOR_SPEED c) \<and>
          0 \<le> t \<and> t < 360 \<and>
          ((t - ip) mod 360 = ?d mod 360 \<or> (ip - t) mod 360 = ?d mod 360) \<and>
          (0 \<le> ?d \<and> ?d \<le> 180 \<longrightarrow> min ((t - ip) mod 360) ((ip - t) mod 360) = ?d) \<and>
          rs ! j = RunToPosition (?ms ! j) ip ''shortest path'' (MOTOR_SPEED c))"
      by blast
  qed
  show ?thesis
    unfolding started_trace(2)[OF assms]
    using started_trace(1)[OF assms] pre_no_command[of c e] length_run_events cyc
    by (intro exI[of _ ?pre] exI[of _ ?cs]) simp
qed

lemma moves_commands: "ev \<in> set (moves c u ps rec ms rc i) \<Longrightarrow> is_actuator_command ev"
  by (induction ms arbitrary: rc i) auto

lemma filter_moves: "filter is_actuator_command (moves c u ps rec ms rc i) = moves c u ps rec ms rc i"
  by (rule filter_True) (simp add: moves_commands)

lemma filter_resets: "filter is_actuator_command (resets c rec ms) = resets c rec ms"
  by (rule filter_True) (auto simp: resets_def)

lemma cycle_command_count:
  "length (filter is_actuator_command (cycle_events c u ps rec ms i)) = 2 * length ms"
  by (simp add: cycle_events_def filter_moves filter_resets length_moves) (simp add: resets_def)

lemma concat_filter_count:
  "\<forall>xs\<in>set xss. length (filter Q xs) = m \<Longrightarrow> length (filter Q (concat xss)) = length xss * m"
  by (induction xss) simp_all

lemma run_command_count:
  "length (filter is_actuator_command (concat (run_events c u ps rec ms i n))) = n * (2 * length ms)"
proof -
  have "\<forall>xs\<in>set (run_events c u ps rec ms i n).
          length (filter is_actuator_command xs) = 2 * length ms"
    by (auto simp: run_events_def cycle_command_count)
  from concat_filter_count[OF this] show ?thesis by (simp add: length_run_events)
qed

lemma run_events_hd:
  assumes "0 < n" "ms \<noteq> []"
  shows "is_actuator_command (hd (concat (run_events c u ps rec ms i n)))"
proof -
  from assms obtain n' where n: "n = Suc n'" by (cases n) auto
  from assms obtain m ms' where ms: "ms = m # ms'" by (cases ms) auto
  show ?thesis unfolding n run_events_Suc by (simp add: cycle_events_def ms)
qed

lemma readings_button: "readings (e\<lparr>button_pressed := b\<rparr>) t ms = readings e t ms"
  by (induction ms arbitrary: t) simp_all

lemma capture_positions_button:
  "capture_positions (e\<lparr>button_pressed := b\<rparr>) ms s = capture_positions e ms s"
  by (induction ms arbitrary: s) (simp_all add: Let_def)

lemma startup_button: "startup c (e\<lparr>button_pressed := b\<rparr>) = startup c e"
  by (simp add: startup_def recorded_def readings_button capture_positions_button)

text \<open>
  Claim C8. On a hub that is not the top hub: if the button is never pressed, the script
  stays blocked in \<open>wait_until_pressed\<close>, the last event of its trace, having sent no
  command to an actuator and made no draw; if the button is pressed, the trace is the
  same events up to \<open>wait_until_pressed\<close>, none of them a command to an actuator, then
  the button press, then the cycles, which hold all \<open>2 * B * length motor_order\<close>
  commands and begin with a command.
\<close>

theorem secondary_waits_for_trigger:
  assumes "MODE c \<noteq> ''top''"
  shows "(\<not> button_pressed e \<longrightarrow>
            snd (physical_mode c e) = Blocked \<and>
            draws (fst (physical_mode c e)) = 0 \<and>
            last (trace (fst (physical_mode c e))) = WaitUntilPressed \<and>
            (\<forall>ev\<in>set (trace (fst (physical_mode c e))). \<not> is_actuator_command ev)) \<and>
         (button_pressed e \<longrightarrow>
            (\<exists>pre post.
               trace (fst (physical_mode c e)) = pre @ [WaitUntilPressed, LeftButtonPressed] @ post \<and>
               trace (fst (physical_mode c (e\<lparr>button_pressed := False\<rparr>))) = pre @ [WaitUntilPressed] \<and>
               (\<forall>ev\<in>set pre. \<not> is_actuator_command ev) \<and>
               length (filter is_actuator_command post) = nat (B c) * (2 * length (motor_order_of c)) \<and>
               (0 < B c \<and> motor_order_of c \<noteq> [] \<longrightarrow> is_actuator_command (hd post))))"
proof (intro conjI impI)
  assume np: "\<not> button_pressed e"
  note bt = blocked_trace[OF assms np]
  show "snd (physical_mode c e) = Blocked" by (rule bt(4))
  show "draws (fst (physical_mode c e)) = 0" by (rule bt(3))
  show "last (trace (fst (physical_mode c e))) = WaitUntilPressed" unfolding bt(1) by simp
  show "\<forall>ev\<in>set (trace (fst (physical_mode c e))). \<not> is_actuator_command ev"
    unfolding bt(1) using startup_no_command[of _ c e] by auto
next
  assume p: "button_pressed e"
  then have st: "MODE c = ''top'' \<or> button_pressed e" by simp
  let ?e' = "e\<lparr>button_pressed := False\<rparr>"
  let ?post = "concat (run_events c (uniform e) (parity_start_of c) (map_of (recorded c e))
                     (motor_order_of c) 0 (nat (B c)))"
  have same: "startup c ?e' = startup c e" by (rule startup_button)
  have 1: "trace (fst (physical_mode c e)) =
             startup c e @ [WaitUntilPressed, LeftButtonPressed] @ ?post"
    using started_trace(1)[OF st] assms by (simp add: sync_events_def)
  have 2: "trace (fst (physical_mode c ?e')) = startup c e @ [WaitUntilPressed]"
    using blocked_trace(1)[OF assms, of ?e'] same by simp
  have 3: "\<forall>ev\<in>set (startup c e). \<not> is_actuator_command ev"
    using startup_no_command[of _ c e] by auto
  have 4: "length (filter is_actuator_command ?post) = nat (B c) * (2 * length (motor_order_of c))"
    by (rule run_command_count)
  have 5: "0 < B c \<and> motor_order_of c \<noteq> [] \<longrightarrow> is_actuator_command (hd ?post)"
    by (auto intro: run_events_hd)
  from 1 2 3 4 5
  show "\<exists>pre post.
               trace (fst (physical_mode c e)) = pre @ [WaitUntilPressed, LeftButtonPressed] @ post \<and>
               trace (fst (physical_mode c (e\<lparr>button_pressed := False\<rparr>))) = pre @ [WaitUntilPressed] \<and>
               (\<forall>ev\<in>set pre. \<not> is_actuator_command ev) \<and>
               length (filter is_actuator_command post) = nat (B c) * (2 * length (motor_order_of c)) \<and>
               (0 < B c \<and> motor_order_of c \<noteq> [] \<longrightarrow> is_actuator_command (hd post))"
    by blast
qed

lemma cycle_event_cases:
  assumes "ev \<in> set (cycle_events c u ps rec ms i)"
  shows "\<not> is_get_position ev \<and>
    (is_actuator_command ev \<longrightarrow>
       (\<exists>j<length ms. \<exists>t.
          ev = RunToPosition (ms ! j) t ''shortest path'' (MOTOR_SPEED c) \<and>
          (t = the (rec (ms ! j)) \<or>
           t = (the (rec (ms ! j)) + MOTOR_OPENING_DEGREES c) mod 360 \<or>
           t = (the (rec (ms ! j)) - MOTOR_OPENING_DEGREES c) mod 360)))"
proof -
  from assms consider
    (mv) "ev \<in> set (moves c u ps rec ms 0 i)" | (wait) "ev = WaitForSeconds 5"
    | (rs) "ev \<in> set (resets c rec ms)"
    by (auto simp: cycle_events_def)
  then show ?thesis
  proof cases
    case mv
    then obtain j where j: "j < length ms" and ev: "ev = moves c u ps rec ms 0 i ! j"
      by (auto simp: in_set_conv_nth length_moves)
    show ?thesis unfolding ev moves_nth[OF j] using j by auto
  next
    case wait
    then show ?thesis by simp
  next
    case rs
    then obtain j where j: "j < length ms"
      and ev: "ev = RunToPosition (ms ! j) (the (rec (ms ! j))) ''shortest path'' (MOTOR_SPEED c)"
      by (auto simp: resets_def in_set_conv_nth)
    show ?thesis unfolding ev using j by auto
  qed
qed

lemma run_event_cases:
  assumes "ev \<in> set (concat (run_events c u ps rec ms i n))"
  shows "\<not> is_get_position ev \<and>
    (is_actuator_command ev \<longrightarrow>
       (\<exists>j<length ms. \<exists>t.
          ev = RunToPosition (ms ! j) t ''shortest path'' (MOTOR_SPEED c) \<and>
          (t = the (rec (ms ! j)) \<or>
           t = (the (rec (ms ! j)) + MOTOR_OPENING_DEGREES c) mod 360 \<or>
           t = (the (rec (ms ! j)) - MOTOR_OPENING_DEGREES c) mod 360)))"
proof -
  from assms obtain k where "ev \<in> set (cycle_events c u ps rec ms (i + k * length ms))"
    by (auto simp: run_events_def)
  then show ?thesis by (rule cycle_event_cases)
qed

lemma physical_trace_shape:
  "\<exists>tl rest.
     trace (fst (physical_mode c e)) = startup c e @ tl @ rest \<and> tl \<noteq> [] \<and>
     (\<forall>ev\<in>set tl. \<not> is_actuator_command ev \<and> \<not> is_get_position ev) \<and>
     set rest \<subseteq> set (concat (run_events c (uniform e) (parity_start_of c) (map_of (recorded c e))
                                 (motor_order_of c) 0 (nat (B c))))"
proof (cases "MODE c = ''top'' \<or> button_pressed e")
  case True
  from started_trace(1)[OF True] show ?thesis
    by (intro exI[of _ "sync_events c"]
        exI[of _ "concat (run_events c (uniform e) (parity_start_of c) (map_of (recorded c e))
                                 (motor_order_of c) 0 (nat (B c)))"])
      (simp add: sync_events_def)
next
  case False
  then have "MODE c \<noteq> ''top''" "\<not> button_pressed e" by simp_all
  from blocked_trace(1)[OF this] show ?thesis
    by (intro exI[of _ "[WaitUntilPressed]"] exI[of _ "[]"]) simp
qed

lemma physical_recorded: "initial_positions (fst (physical_mode c e)) = recorded c e"
proof (cases "MODE c = ''top'' \<or> button_pressed e")
  case True
  then show ?thesis by (rule started_trace(2))
next
  case False
  then have "MODE c \<noteq> ''top''" "\<not> button_pressed e" by simp_all
  then show ?thesis by (rule blocked_trace(2))
qed

lemma recorded_nth:
  assumes "distinct (motor_order_of c)" "j < length (motor_order_of c)"
  shows "map_of (recorded c e) (motor_order_of c ! j) =
         Some (get_position e (j + 1) (motor_order_of c ! j))"
proof -
  let ?ms = "motor_order_of c"
  have "map_of (zip ?ms (readings e 1 ?ms)) (?ms ! j) = Some (readings e 1 ?ms ! j)"
    using assms by (intro map_of_zip_nth) (simp_all add: length_readings)
  then show ?thesis
    using assms by (simp add: recorded_distinct readings_nth)
qed

lemma recorded_list:
  assumes "distinct (motor_order_of c)"
  shows "recorded c e =
         map (\<lambda>j. (motor_order_of c ! j, get_position e (j + 1) (motor_order_of c ! j)))
           [0..<length (motor_order_of c)]"
  unfolding recorded_distinct[OF assms]
  by (rule nth_equalityI) (simp_all add: length_readings readings_nth)

lemma startup_nth:
  assumes "j < length (motor_order_of c)"
  shows "(startup c e @ xs) ! (j + 1) =
         GetPosition (motor_order_of c ! j) (get_position e (j + 1) (motor_order_of c ! j))"
  using assms by (simp add: startup_def nth_append length_readings readings_nth)

lemma startup_tail_nth:
  assumes "length (motor_order_of c) < i" "i < length (startup c e @ xs)"
  shows "(startup c e @ xs) ! i =
         (PrintPositions (recorded c e) # xs) ! (i - (length (motor_order_of c) + 1))"
proof -
  let ?gs = "map2 GetPosition (motor_order_of c) (readings e 1 (motor_order_of c))"
  have len: "length (ShowImage ''HEART'' # ?gs) = length (motor_order_of c) + 1"
    by (simp add: length_readings)
  have "startup c e @ xs = (ShowImage ''HEART'' # ?gs) @ (PrintPositions (recorded c e) # xs)"
    by (simp add: startup_def)
  then show ?thesis
    using assms(1) len by (simp only: nth_append) simp
qed

text \<open>
  Claim C9. For a list of distinct motors: the position of the \<open>j\<close>-th motor is read
  once, by event \<open>j + 1\<close> of the trace, and no other event of the trace reads a position;
  every command to an actuator comes later in the trace than all the readings, and its
  target is the value read at startup for its motor, or that value plus or minus the
  opening angle modulo 360; and the dictionary \<open>initial_positions\<close> at the end of the run
  still holds exactly the values read at startup.
\<close>

theorem initial_positions_written_once:
  assumes "distinct (motor_order_of c)"
  shows "initial_positions (fst (physical_mode c e)) =
           map (\<lambda>j. (motor_order_of c ! j, get_position e (j + 1) (motor_order_of c ! j)))
             [0..<length (motor_order_of c)] \<and>
    (\<forall>j<length (motor_order_of c).
       trace (fst (physical_mode c e)) ! (j + 1) =
         GetPosition (motor_order_of c ! j) (get_position e (j + 1) (motor_order_of c ! j))) \<and>
    (\<forall>i<length (trace (fst (physical_mode c e))).
       is_get_position (trace (fst (physical_mode c e)) ! i) \<longrightarrow>
         1 \<le> i \<and> i \<le> length (motor_order_of c)) \<and>
    (\<forall>i<length (trace (fst (physical_mode c e))).
       is_actuator_command (trace (fst (physical_mode c e)) ! i) \<longrightarrow>
         length (motor_order_of c) + 2 < i \<and>
         (\<exists>j<length (motor_order_of c). \<exists>t.
            trace (fst (physical_mode c e)) ! i =
              RunToPosition (motor_order_of c ! j) t ''shortest path'' (MOTOR_SPEED c) \<and>
            (t = get_position e (j + 1) (motor_order_of c ! j) \<or>
             t = (get_position e (j + 1) (motor_order_of c ! j) + MOTOR_OPENING_DEGREES c) mod 360 \<or>
             t = (get_position e (j + 1) (motor_order_of c ! j) - MOTOR_OPENING_DEGREES c) mod 360)))"
proof -
  let ?ms = "motor_order_of c"
  let ?L = "length ?ms"
  let ?tr = "trace (fst (physical_mode c e))"
  let ?rec = "map_of (recorded c e)"
  let ?run = "concat (run_events c (uniform e) (parity_start_of c) ?rec ?ms 0 (nat (B c)))"
  from physical_trace_shape[of c e] obtain tl rest where
    tr: "?tr = startup c e @ tl @ rest" and tl: "tl \<noteq> []"
    and tlq: "\<forall>ev\<in>set tl. \<not> is_actuator_command ev \<and> \<not> is_get_position ev"
    and rest: "set rest \<subseteq> set ?run"
    by blast
  have restq: "\<And>ev. ev \<in> set rest \<Longrightarrow> \<not> is_get_position ev \<and>
    (is_actuator_command ev \<longrightarrow>
       (\<exists>j<?L. \<exists>t.
          ev = RunToPosition (?ms ! j) t ''shortest path'' (MOTOR_SPEED c) \<and>
          (t = get_position e (j + 1) (?ms ! j) \<or>
           t = (get_position e (j + 1) (?ms ! j) + MOTOR_OPENING_DEGREES c) mod 360 \<or>
           t = (get_position e (j + 1) (?ms ! j) - MOTOR_OPENING_DEGREES c) mod 360)))"
  proof -
    fix ev assume "ev \<in> set rest"
    with rest have "ev \<in> set ?run" by blast
    from run_event_cases[OF this] show "\<not> is_get_position ev \<and>
    (is_actuator_command ev \<longrightarrow>
       (\<exists>j<?L. \<exists>t.
          ev = RunToPosition (?ms ! j) t ''shortest path'' (MOTOR_SPEED c) \<and>
          (t = get_position e (j + 1) (?ms ! j) \<or>
           t = (get_position e (j + 1) (?ms ! j) + MOTOR_OPENING_DEGREES c) mod 360 \<or>
           t = (get_position e (j + 1) (?ms ! j) - MOTOR_OPENING_DEGREES c) mod 360)))"
      using recorded_nth[OF assms, of _ e] by (metis option.sel)
  qed
  have len: "length (startup c e) = ?L + 2"
    by (simp add: startup_def length_readings)
  have low: "\<And>i. i \<le> ?L \<Longrightarrow> \<not> is_actuator_command (?tr ! i) \<and> (is_get_position (?tr ! i) \<longrightarrow> 1 \<le> i)"
  proof -
    fix i assume i: "i \<le> ?L"
    show "\<not> is_actuator_command (?tr ! i) \<and> (is_get_position (?tr ! i) \<longrightarrow> 1 \<le> i)"
    proof (cases i)
      case 0
      then show ?thesis by (simp add: tr startup_def)
    next
      case (Suc j)
      with i have "j < ?L" by simp
      from startup_nth[OF this, of e "tl @ rest"] show ?thesis by (simp add: tr Suc)
    qed
  qed
  have high: "\<And>i. ?L < i \<Longrightarrow> i < length ?tr \<Longrightarrow>
      \<not> is_get_position (?tr ! i) \<and>
      (is_actuator_command (?tr ! i) \<longrightarrow> ?L + 2 < i \<and> ?tr ! i \<in> set rest)"
  proof -
    fix i assume i: "?L < i" "i < length ?tr"
    define k where "k = i - (?L + 1)"
    let ?ys = "PrintPositions (recorded c e) # tl @ rest"
    have nth: "?tr ! i = ?ys ! k"
      using startup_tail_nth[OF i(1), of e "tl @ rest"] i(2) by (simp add: tr k_def)
    have k: "k < length ?ys" using i by (simp add: tr len k_def)
    show "\<not> is_get_position (?tr ! i) \<and>
      (is_actuator_command (?tr ! i) \<longrightarrow> ?L + 2 < i \<and> ?tr ! i \<in> set rest)"
    proof (cases "k < 1 + length tl")
      case True
      then have "?ys ! k \<in> set (PrintPositions (recorded c e) # tl)"
        by (metis append_Cons length_Cons nth_append nth_mem plus_1_eq_Suc)
      then have "\<not> is_actuator_command (?ys ! k) \<and> \<not> is_get_position (?ys ! k)"
        using tlq by auto
      then show ?thesis by (simp add: nth)
    next
      case False
      then have kk: "1 + length tl \<le> k" by simp
      then have "?ys ! k = rest ! (k - (1 + length tl))"
        by (metis append_Cons length_Cons not_less nth_append plus_1_eq_Suc)
      moreover have "k - (1 + length tl) < length rest" using k kk by simp
      ultimately have mem: "?ys ! k \<in> set rest" by simp
      have "2 \<le> k" using kk tl by (cases tl) simp_all
      then have "?L + 2 < i" by (simp add: k_def)
      with mem restq[of "?ys ! k"] show ?thesis by (simp add: nth)
    qed
  qed
  have 1: "initial_positions (fst (physical_mode c e)) =
           map (\<lambda>j. (?ms ! j, get_position e (j + 1) (?ms ! j))) [0..<?L]"
    unfolding physical_recorded by (rule recorded_list[OF assms])
  have 2: "\<forall>j<?L. ?tr ! (j + 1) = GetPosition (?ms ! j) (get_position e (j + 1) (?ms ! j))"
    unfolding tr using startup_nth by blast
  have 3: "\<forall>i<length ?tr. is_get_position (?tr ! i) \<longrightarrow> 1 \<le> i \<and> i \<le> ?L"
  proof (intro allI impI)
    fix i assume "i < length ?tr" "is_get_position (?tr ! i)"
    then show "1 \<le> i \<and> i \<le> ?L" using low[of i] high[of i] by (cases "i \<le> ?L") auto
  qed
  have 4: "\<forall>i<length ?tr. is_actuator_command (?tr ! i) \<longrightarrow>
         ?L + 2 < i \<and>
         (\<exists>j<?L. \<exists>t.
            ?tr ! i = RunToPosition (?ms ! j) t ''shortest path'' (MOTOR_SPEED c) \<and>
            (t = get_position e (j + 1) (?ms ! j) \<or>
             t = (get_position e (j + 1) (?ms ! j) + MOTOR_OPENING_DEGREES c) mod 360 \<or>
             t = (get_position e (j + 1) (?ms ! j) - MOTOR_OPENING_DEGREES c) mod 360))"
  proof (intro allI impI)
    fix i assume i: "i < length ?tr" "is_actuator_command (?tr ! i)"
    then have "?L < i" using low[of i] by (cases "i \<le> ?L") auto
    from high[OF this i(1)] i(2) have "?L + 2 < i" "?tr ! i \<in> set rest" by simp_all
    with restq[of "?tr ! i"] i(2) show "?L + 2 < i \<and>
         (\<exists>j<?L. \<exists>t.
            ?tr ! i = RunToPosition (?ms ! j) t ''shortest path'' (MOTOR_SPEED c) \<and>
            (t = get_position e (j + 1) (?ms ! j) \<or>
             t = (get_position e (j + 1) (?ms ! j) + MOTOR_OPENING_DEGREES c) mod 360 \<or>
             t = (get_position e (j + 1) (?ms ! j) - MOTOR_OPENING_DEGREES c) mod 360))"
      by blast
  qed
  from 1 2 3 4 show ?thesis by blast
qed

section \<open>Concrete runs, and the probability parameter\<close>

text \<open>
  Claim C3 fails as stated for the reset commands. Top hub, one cycle, every motor
  reporting 100: event 14 of the trace is the reset of motor C, an actuator command
  whose target is the recorded position 100 itself, not 30 degrees away from it.
\<close>

theorem reset_command_counterexample:
  "trace (fst (physical_mode (default_config\<lparr>MODE := ''top'', B := 1\<rparr>) example_env)) ! 14 =
     RunToPosition ''C'' 100 ''shortest path'' 10 \<and>
   map_of (initial_positions (fst (physical_mode (default_config\<lparr>MODE := ''top'', B := 1\<rparr>) example_env)))
     ''C'' = Some 100 \<and>
   ((100::int) - 100) mod 360 \<noteq> MOTOR_OPENING_DEGREES (default_config\<lparr>MODE := ''top'', B := 1\<rparr>) mod 360"
  by (simp add: physical_mode_def default_config_def example_env_def always_def motor_order_of_def
      parity_start_of_def cycles.simps bern_def truthy_def Let_def)

text \<open>
  Claim C7 fails as stated: with \<open>P = 2\<close> (one level, one ball per trial) the script
  reports no configuration error and prints its report, every ball in the right bin.
\<close>

theorem unchecked_probability_counterexample:
  "galton (default_config\<lparr>P := 2, N := 1, B_SIM := 1\<rparr>) example_env =
     Simulation ([Header 10, BinLine ''     Left '' 0 0 0 0, BinLine ''   Right '' 1 1 1 1], None)"
  by (simp add: galton_def simulation_mode_def default_config_def example_env_def always_def
      run_one_simulation_def py_range_def upt_rec bern_def py_mean_def py_max_def py_min_def)

lemma physical_mode_outcome:
  "snd (physical_mode c e) = Finished \<or> snd (physical_mode c e) = Blocked"
proof (cases "MODE c = ''top'' \<or> button_pressed e")
  case True
  then show ?thesis by (simp add: started_trace(4))
next
  case False
  then have "MODE c \<noteq> ''top''" "\<not> button_pressed e" by simp_all
  then show ?thesis by (simp add: blocked_trace(4))
qed

text \<open>
  Claim C7, as the code has it. The script never checks \<open>P\<close>: for every value of
  \<open>P\<close>, in \<open>[0, 1]\<close> or not, the run proceeds. In simulation mode with \<open>N \<ge> 0\<close> it prints
  the header and \<open>N + 1\<close> lines and raises nothing; in physical mode it finishes its cycles
  or waits for the button. \<open>bern\<close> only compares the draw with \<open>P\<close>: for draws in
  \<open>[0, 1)\<close>, every \<open>P \<le> 0\<close> gives 0 at each draw and every \<open>P \<ge> 1\<close> gives 1.
\<close>

theorem probability_is_not_validated:
  "(MODE c = ''sim'' \<and> 0 \<le> N c \<longrightarrow>
      (\<exists>lines. galton c e = Simulation (Header 10 # lines, None) \<and> length lines = nat (N c + 1))) \<and>
   (MODE c \<noteq> ''sim'' \<longrightarrow>
      (\<exists>s. galton c e = Physical (s, Finished) \<or> galton c e = Physical (s, Blocked))) \<and>
   (P c \<le> 0 \<and> 0 \<le> u i \<longrightarrow> fst (bern c u i) = 0) \<and>
   (1 \<le> P c \<and> u i < 1 \<longrightarrow> fst (bern c u i) = 1)"
proof (intro conjI impI)
  assume h: "MODE c = ''sim'' \<and> 0 \<le> N c"
  then have N: "0 \<le> N c" by simp
  from simulation_mode_trials[OF N, of 10 "uniform e"]
  obtain lines where "simulation_mode c (uniform e) 10 = (Header 10 # lines, None)"
    and "length lines = nat (N c + 1)"
    by (auto simp: length_py_range)
  with h show "\<exists>lines. galton c e = Simulation (Header 10 # lines, None) \<and>
      length lines = nat (N c + 1)"
    by (simp add: galton_def)
next
  assume "MODE c \<noteq> ''sim''"
  then have "galton c e = Physical (physical_mode c e)" by (simp add: galton_def)
  with physical_mode_outcome[of c e]
  show "\<exists>s. galton c e = Physical (s, Finished) \<or> galton c e = Physical (s, Blocked)"
    by (metis prod.collapse)
next
  assume "P c \<le> 0 \<and> 0 \<le> u i"
  then show "fst (bern c u i) = 0" by (simp add: bern_def)
next
  assume "1 \<le> P c \<and> u i < 1"
  then show "fst (bern c u i) = 1" by (simp add: bern_def)
qed

theorem probability_is_not_validated_witness:
  "(\<exists>lines. galton (default_config\<lparr>P := 2\<rparr>) example_env = Simulation (Header 10 # lines, None) \<and>
      length lines = 11) \<and>
   fst (bern (default_config\<lparr>P := 2\<rparr>) (always (1 / 2)) 0) = 1 \<and>
   (\<exists>s. galton (default_config\<lparr>MODE := ''top'', P := - 1\<rparr>) example_env = Physical (s, Finished) \<or>
      galton (default_config\<lparr>MODE := ''top'', P := - 1\<rparr>) example_env = Physical (s, Blocked)) \<and>
   fst (bern (default_config\<lparr>MODE := ''top'', P := - 1\<rparr>) (always (1 / 2)) 0) = 0"
  using probability_is_not_validated[of "default_config\<lparr>P := 2\<rparr>" example_env "always (1 / 2)" 0]
    probability_is_not_validated[of "default_config\<lparr>MODE := ''top'', P := - 1\<rparr>" example_env
      "always (1 / 2)" 0]
  by (simp add: default_config_def always_def)

theorem move_and_reset_targets_witness:
  "\<exists>pre cs mv rs t ip.
     trace (fst (physical_mode (default_config\<lparr>MODE := ''top''\<rparr>) example_env)) = pre @ concat cs \<and>
     length cs = 50 \<and> cs ! 0 = mv @ [WaitForSeconds 5] @ rs \<and>
     mv ! 0 = RunToPosition ''C'' t ''shortest path'' 10 \<and>
     rs ! 0 = RunToPosition ''C'' ip ''shortest path'' 10 \<and>
     min ((t - ip) mod 360) ((ip - t) mod 360) = 30"
proof -
  let ?c = "default_config\<lparr>MODE := ''top''\<rparr>"
  let ?ms = "motor_order_of ?c"
  let ?d = "MOTOR_OPENING_DEGREES ?c"
  let ?s = "fst (physical_mode ?c example_env)"
  have h: "MODE ?c = ''top'' \<or> button_pressed example_env" by simp
  have v: "nat (B ?c) = 50" "?ms = [''C'', ''E'', ''B'', ''D'', ''F'']" "?d = 30" "MOTOR_SPEED ?c = 10"
    by (simp_all add: default_config_def motor_order_of_def)
  from move_and_reset_targets[OF h] obtain pre cs where
    1: "trace ?s = pre @ concat cs" and 2: "length cs = nat (B ?c)"
    and 3: "\<forall>k<nat (B ?c). \<exists>mv rs.
       cs ! k = mv @ [WaitForSeconds 5] @ rs \<and>
       length mv = length ?ms \<and> length rs = length ?ms \<and>
       (\<forall>j<length ?ms. \<exists>t ip.
          map_of (initial_positions ?s) (?ms ! j) = Some ip \<and>
          mv ! j = RunToPosition (?ms ! j) t ''shortest path'' (MOTOR_SPEED ?c) \<and>
          0 \<le> t \<and> t < 360 \<and>
          ((t - ip) mod 360 = ?d mod 360 \<or> (ip - t) mod 360 = ?d mod 360) \<and>
          (0 \<le> ?d \<and> ?d \<le> 180 \<longrightarrow> min ((t - ip) mod 360) ((ip - t) mod 360) = ?d) \<and>
          rs ! j = RunToPosition (?ms ! j) ip ''shortest path'' (MOTOR_SPEED ?c))"
    by blast
  have k0: "0 < nat (B ?c)" by (simp add: default_config_def)
  from 3[rule_format, OF k0] obtain mv rs where
    4: "cs ! 0 = mv @ [WaitForSeconds 5] @ rs"
    and 5: "\<forall>j<length ?ms. \<exists>t ip.
          map_of (initial_positions ?s) (?ms ! j) = Some ip \<and>
          mv ! j = RunToPosition (?ms ! j) t ''shortest path'' (MOTOR_SPEED ?c) \<and>
          0 \<le> t \<and> t < 360 \<and>
          ((t - ip) mod 360 = ?d mod 360 \<or> (ip - t) mod 360 = ?d mod 360) \<and>
          (0 \<le> ?d \<and> ?d \<le> 180 \<longrightarrow> min ((t - ip) mod 360) ((ip - t) mod 360) = ?d) \<and>
          rs ! j = RunToPosition (?ms ! j) ip ''shortest path'' (MOTOR_SPEED ?c)"
    by blast
  have j0: "0 < length ?ms" by (simp add: v)
  from 5[rule_format, OF j0] obtain t ip where
    6: "mv ! 0 = RunToPosition (?ms ! 0) t ''shortest path'' (MOTOR_SPEED ?c)"
    and 7: "0 \<le> ?d \<and> ?d \<le> 180 \<longrightarrow> min ((t - ip) mod 360) ((ip - t) mod 360) = ?d"
    and 8: "rs ! 0 = RunToPosition (?ms ! 0) ip ''shortest path'' (MOTOR_SPEED ?c)"
    by blast
  have p6: "mv ! 0 = RunToPosition ''C'' t ''shortest path'' 10" using 6 by (simp add: v)
  have p7: "min ((t - ip) mod 360) ((ip - t) mod 360) = 30" using 7 by (simp add: v)
  have p8: "rs ! 0 = RunToPosition ''C'' ip ''shortest path'' 10" using 8 by (simp add: v)
  have p2: "length cs = 50" using 2 by (simp add: default_config_def)
  from 1 p2 4 p6 p7 p8 show ?thesis by blast
qed

theorem direction_truth_table_witness:
  "\<exists>pre cs.
     trace (fst (physical_mode (default_config\<lparr>MODE := ''reg''\<rparr>) example_env)) = pre @ concat cs \<and>
     length cs = 50 \<and> cs ! 0 ! 0 = RunToPosition ''A'' 130 ''shortest path'' 10"
proof -
  let ?c = "default_config\<lparr>MODE := ''reg''\<rparr>"
  let ?ms = "motor_order_of ?c"
  let ?s = "fst (physical_mode ?c example_env)"
  have h: "MODE ?c = ''top'' \<or> button_pressed example_env" by (simp add: example_env_def)
  have v: "nat (B ?c) = 50" "?ms = [''A'', ''C'', ''E'', ''B'', ''D'']"
    "MOTOR_OPENING_DEGREES ?c = 30" "MOTOR_SPEED ?c = 10" "MODE ?c \<noteq> ''top''"
    by (simp_all add: default_config_def motor_order_of_def)
  have d: "distinct ?ms" by (simp add: v)
  have j0: "0 < length ?ms" by (simp add: v)
  have k0: "0 < nat (B ?c)" by (simp add: default_config_def)
  have ip: "map_of (initial_positions ?s) (?ms ! 0) = Some 100"
    using recorded_nth[OF d j0, of example_env]
    by (simp add: physical_recorded example_env_def)
  have r: "fst (bern ?c (uniform example_env) (0 * length ?ms + 0)) \<noteq> 1"
    by (simp add: bern_def example_env_def always_def default_config_def)
  from direction_truth_table[OF h] obtain pre cs where
    1: "trace ?s = pre @ concat cs" and 2: "length cs = nat (B ?c)"
    and 3: "\<forall>k<nat (B ?c).
       length (cs ! k) = 2 * length ?ms + 1 \<and>
       (\<forall>j<length ?ms.
          cs ! k ! j =
            RunToPosition (?ms ! j)
              (if (fst (bern ?c (uniform example_env) (k * length ?ms + j)) = 1 \<and>
                   ((if MODE ?c = ''top'' then 1 else 0) + (int j + 1)) mod 2 = 0) \<or>
                  (fst (bern ?c (uniform example_env) (k * length ?ms + j)) \<noteq> 1 \<and>
                   ((if MODE ?c = ''top'' then 1 else 0) + (int j + 1)) mod 2 = 1)
               then (the (map_of (initial_positions ?s) (?ms ! j)) + MOTOR_OPENING_DEGREES ?c) mod 360
               else (the (map_of (initial_positions ?s) (?ms ! j)) - MOTOR_OPENING_DEGREES ?c) mod 360)
              ''shortest path'' (MOTOR_SPEED ?c))"
    by blast
  from 3[rule_format, OF k0] have "\<forall>j<length ?ms.
          cs ! 0 ! j =
            RunToPosition (?ms ! j)
              (if (fst (bern ?c (uniform example_env) (0 * length ?ms + j)) = 1 \<and>
                   ((if MODE ?c = ''top'' then 1 else 0) + (int j + 1)) mod 2 = 0) \<or>
                  (fst (bern ?c (uniform example_env) (0 * length ?ms + j)) \<noteq> 1 \<and>
                   ((if MODE ?c = ''top'' then 1 else 0) + (int j + 1)) mod 2 = 1)
               then (the (map_of (initial_positions ?s) (?ms ! j)) + MOTOR_OPENING_DEGREES ?c) mod 360
               else (the (map_of (initial_positions ?s) (?ms ! j)) - MOTOR_OPENING_DEGREES ?c) mod 360)
              ''shortest path'' (MOTOR_SPEED ?c)"
    by blast
  from this[rule_format, OF j0] have "cs ! 0 ! 0 =
            RunToPosition (?ms ! 0)
              (if (fst (bern ?c (uniform example_env) (0 * length ?ms + 0)) = 1 \<and>
                   ((if MODE ?c = ''top'' then 1 else 0) + (int 0 + 1)) mod 2 = 0) \<or>
                  (fst (bern ?c (uniform example_env) (0 * length ?ms + 0)) \<noteq> 1 \<and>
                   ((if MODE ?c = ''top'' then 1 else 0) + (int 0 + 1)) mod 2 = 1)
               then (the (map_of (initial_positions ?s) (?ms ! 0)) + MOTOR_OPENING_DEGREES ?c) mod 360
               else (the (map_of (initial_positions ?s) (?ms ! 0)) - MOTOR_OPENING_DEGREES ?c) mod 360)
              ''shortest path'' (MOTOR_SPEED ?c)" .
  then have "cs ! 0 ! 0 = RunToPosition ''A'' 130 ''shortest path'' 10"
    unfolding ip using r by (simp add: v)
  moreover have "length cs = 50" using 2 by (simp add: default_config_def)
  ultimately show ?thesis using 1 by blast
qed

theorem secondary_waits_for_trigger_witness:
  "snd (physical_mode (default_config\<lparr>MODE := ''reg''\<rparr>) (example_env\<lparr>button_pressed := False\<rparr>)) =
     Blocked \<and>
   (\<exists>pre post.
      trace (fst (physical_mode (default_config\<lparr>MODE := ''reg''\<rparr>) example_env)) =
        pre @ [WaitUntilPressed, LeftButtonPressed] @ post \<and>
      length (filter is_actuator_command post) = 500 \<and> is_actuator_command (hd post))"
proof -
  let ?c = "default_config\<lparr>MODE := ''reg''\<rparr>"
  have h: "MODE ?c \<noteq> ''top''" by (simp add: default_config_def)
  have v: "nat (B ?c) = 50" "length (motor_order_of ?c) = 5" "0 < B ?c" "motor_order_of ?c \<noteq> []"
    by (simp_all add: default_config_def motor_order_of_def)
  have b: "button_pressed example_env" "\<not> button_pressed (example_env\<lparr>button_pressed := False\<rparr>)"
    by (simp_all add: example_env_def)
  from secondary_waits_for_trigger[OF h, of "example_env\<lparr>button_pressed := False\<rparr>"] b(2)
  have 1: "snd (physical_mode ?c (example_env\<lparr>button_pressed := False\<rparr>)) = Blocked" by blast
  from secondary_waits_for_trigger[OF h, of example_env] b(1) v
  have 2: "\<exists>pre post.
      trace (fst (physical_mode ?c example_env)) =
        pre @ [WaitUntilPressed, LeftButtonPressed] @ post \<and>
      length (filter is_actuator_command post) = 500 \<and> is_actuator_command (hd post)"
    by fastforce
  from 1 2 show ?thesis by blast
qed

theorem initial_positions_written_once_witness:
  "initial_positions (fst (physical_mode (default_config\<lparr>MODE := ''top''\<rparr>) example_env)) =
     [(''C'', 100), (''E'', 100), (''B'', 100), (''D'', 100), (''F'', 100)] \<and>
   trace (fst (physical_mode (default_config\<lparr>MODE := ''top''\<rparr>) example_env)) ! 1 =
     GetPosition ''C'' 100"
proof -
  let ?c = "default_config\<lparr>MODE := ''top''\<rparr>"
  have v: "motor_order_of ?c = [''C'', ''E'', ''B'', ''D'', ''F'']"
    by (simp add: default_config_def motor_order_of_def)
  have d: "distinct (motor_order_of ?c)" by (simp add: v)
  from initial_positions_written_once[OF d, of example_env]
  have 1: "initial_positions (fst (physical_mode ?c example_env)) =
           map (\<lambda>j. (motor_order_of ?c ! j, get_position example_env (j + 1) (motor_order_of ?c ! j)))
             [0..<length (motor_order_of ?c)]"
    and 2: "\<forall>j<length (motor_order_of ?c).
       trace (fst (physical_mode ?c example_env)) ! (j + 1) =
         GetPosition (motor_order_of ?c ! j) (get_position example_env (j + 1) (motor_order_of ?c ! j))"
    by blast+
  from 1 have a: "initial_positions (fst (physical_mode ?c example_env)) =
     [(''C'', 100), (''E'', 100), (''B'', 100), (''D'', 100), (''F'', 100)]"
    by (simp add: v example_env_def upt_rec)
  from 2 have "trace (fst (physical_mode ?c example_env)) ! (0 + 1) =
         GetPosition (motor_order_of ?c ! 0) (get_position example_env (0 + 1) (motor_order_of ?c ! 0))"
    by (simp add: v)
  then have b: "trace (fst (physical_mode ?c example_env)) ! 1 = GetPosition ''C'' 100"
    by (simp add: v example_env_def)
  from a b show ?thesis by blast
qed

end
